theory Spec2Isabelle
  imports Main "HOL-Library.AList"
begin

section \<open>Values, errors and Python dictionaries\<close>

text \<open>
  The alarm service of \<^verbatim>\<open>gridappsd-alarms.py\<close> receives JSON payloads already parsed
  into Python objects. The scalars that reach a comparison are modelled by \<open>pyval\<close>
  (floating-point numbers are left out of the embedding). \<open>py_eq\<close> is Python's \<^verbatim>\<open>==\<close> on
  these scalars: \<^verbatim>\<open>bool\<close> is a subclass of \<^verbatim>\<open>int\<close>, so \<^verbatim>\<open>True == 1\<close> holds; values of
  unrelated types are unequal. Python's \<^verbatim>\<open>!=\<close> on them is the negation.
\<close>

datatype pyval = PNone | PBool bool | PInt int | PStr string

fun py_eq :: "pyval \<Rightarrow> pyval \<Rightarrow> bool" where
  "py_eq PNone PNone = True"
| "py_eq (PBool a) (PBool b) = (a = b)"
| "py_eq (PInt a) (PInt b) = (a = b)"
| "py_eq (PBool a) (PInt b) = ((if a then 1 else 0) = b)"
| "py_eq (PInt a) (PBool b) = (a = (if b then 1 else 0))"
| "py_eq (PStr a) (PStr b) = (a = b)"
| "py_eq _ _ = False"

text \<open>Indexing a dictionary at a key it does not hold raises \<^verbatim>\<open>KeyError(key)\<close>.\<close>

datatype error = KeyError string

text \<open>Python's \<^verbatim>\<open>sub in s\<close> on strings: \<open>sub\<close> occurs in \<open>s\<close> as a contiguous run.\<close>

fun startswith :: "string \<Rightarrow> string \<Rightarrow> bool" where
  "startswith s [] = True"
| "startswith [] (c # sub) = False"
| "startswith (d # s) (c # sub) = (d = c \<and> startswith s sub)"

fun contains :: "string \<Rightarrow> string \<Rightarrow> bool" where
  "contains [] sub = (sub = [])"
| "contains (d # s) sub = (startswith (d # s) sub \<or> contains s sub)"

text \<open>
  A dictionary whose iteration order is observed (\<^verbatim>\<open>equipment_dict\<close>,
  \<^verbatim>\<open>measurement_dict\<close>) is an association list in insertion order; \<^verbatim>\<open>d[k] = v\<close> is
  \<^const>\<open>AList.update\<close>, which replaces the value of a key in place and appends a new key
  at the end, as a Python dict does. Dictionaries that are only indexed, tested for
  membership, assigned and deleted from are maps.
\<close>

section \<open>Bootstrap: the metadata index of \<^verbatim>\<open>_main\<close>\<close>

text \<open>
  The fields read from the records of the bulk queries: \<^verbatim>\<open>capacitor["id"]\<close>,
  \<^verbatim>\<open>["IdentifiedObject.name"]\<close>; \<^verbatim>\<open>measurement["measid"]\<close>, \<^verbatim>\<open>["type"]\<close>, \<^verbatim>\<open>["eqid"]\<close>,
  \<^verbatim>\<open>["phases"]\<close>. Phases are strings, and \<^verbatim>\<open>+\<close> on them is concatenation.
\<close>

record equipment =
  eq_id :: string
  eq_name :: string

record measurement =
  measid :: string
  meas_type :: string
  eqid :: string
  phases :: string

text \<open>Lines 215-216 and 226-227: \<^verbatim>\<open>for capacitor in response["data"]: equipment_dict[capacitor["id"]] = capacitor\<close>.\<close>

fun add_equipment :: "(string \<times> equipment) list \<Rightarrow> equipment list \<Rightarrow> (string \<times> equipment) list" where
  "add_equipment equipment_dict [] = equipment_dict"
| "add_equipment equipment_dict (capacitor # rest) =
     add_equipment (AList.update (eq_id capacitor) capacitor equipment_dict) rest"

text \<open>Lines 239-241 and 250-252: only measurements of type \<^verbatim>\<open>"Pos"\<close> are kept.\<close>

fun add_measurements :: "(string \<times> measurement) list \<Rightarrow> measurement list \<Rightarrow> (string \<times> measurement) list" where
  "add_measurements measurement_dict [] = measurement_dict"
| "add_measurements measurement_dict (m # rest) =
     add_measurements
       (if meas_type m = ''Pos'' then AList.update (measid m) m measurement_dict else measurement_dict)
       rest"

text \<open>
  Lines 260-265, the body of the nested loop, on the pair
  \<open>(meas_eq_map, eq_phases_map)\<close> of dictionaries being built.
\<close>

type_synonym maps = "(string \<rightharpoonup> string) \<times> (string \<rightharpoonup> string)"

definition associate :: "string \<Rightarrow> measurement \<Rightarrow> string \<Rightarrow> maps \<Rightarrow> maps" where
  "associate mid m equipment mp =
     (case mp of (meas_eq, eq_phases) \<Rightarrow>
        if equipment = eqid m then
          (meas_eq(mid \<mapsto> equipment),
           (case eq_phases equipment of
              Some p \<Rightarrow> eq_phases(equipment \<mapsto> p @ phases m)
            | None \<Rightarrow> eq_phases(equipment \<mapsto> phases m)))
        else (meas_eq, eq_phases))"

text \<open>Line 259: \<^verbatim>\<open>for equipment in equipment_dict\<close>, over the keys in order.\<close>

fun for_equipment :: "string \<Rightarrow> measurement \<Rightarrow> string list \<Rightarrow> maps \<Rightarrow> maps" where
  "for_equipment mid m [] mp = mp"
| "for_equipment mid m (equipment # rest) mp = for_equipment mid m rest (associate mid m equipment mp)"

text \<open>
  Line 258: \<^verbatim>\<open>for measurement in measurement_dict\<close>; \<^verbatim>\<open>measurement_dict[measurement]\<close> is the
  record stored under the key, the second component of the entry.
\<close>

fun for_measurement :: "(string \<times> measurement) list \<Rightarrow> string list \<Rightarrow> maps \<Rightarrow> maps" where
  "for_measurement [] eqs mp = mp"
| "for_measurement ((mid, m) # rest) eqs mp = for_measurement rest eqs (for_equipment mid m eqs mp)"

definition build_maps :: "(string \<times> equipment) list \<Rightarrow> (string \<times> measurement) list \<Rightarrow> maps" where
  "build_maps equipment_dict measurement_dict =
     for_measurement measurement_dict (map fst equipment_dict) (Map.empty, Map.empty)"

section \<open>The subscriber\<close>

text \<open>
  A pending command is the dictionary \<^verbatim>\<open>input\<close> of lines 119-124; the alarm is the same
  object with \<^verbatim>\<open>"timestamp"\<close> set (line 141). \<open>ident\<close> is the identity of the object:
  \<^verbatim>\<open>input = {}\<close> allocates a fresh one each time, and \<open>next_ident\<close> below counts the
  allocations. \<open>timestamp = None\<close> says that the key is absent.
\<close>

record command =
  ident :: nat
  equipment_mrid :: string
  cmd_value :: string
  created_by :: string
  equipment_name :: string
  cmd_phases :: string
  timestamp :: "pyval option"

text \<open>
  The fields of \<^verbatim>\<open>SimulationSubscriber\<close> that \<^verbatim>\<open>on_message\<close> reads or writes. The
  first four are the metadata index, the next two the measurement snapshot and the
  pending command table.
\<close>

record subscriber =
  equipment_dict :: "(string \<times> equipment) list"
  measurement_dict :: "(string \<times> measurement) list"
  meas_eq_map :: "string \<rightharpoonup> string"
  eq_phases_map :: "string \<rightharpoonup> string"
  measurement_value :: "string \<rightharpoonup> pyval"
  input_map :: "string \<rightharpoonup> command"
  next_ident :: nat

text \<open>\<^verbatim>\<open>__init__\<close>, lines 88-96.\<close>

definition init_subscriber ::
  "(string \<times> equipment) list \<Rightarrow> (string \<times> measurement) list \<Rightarrow> (string \<rightharpoonup> string) \<Rightarrow> (string \<rightharpoonup> string) \<Rightarrow> subscriber" where
  "init_subscriber ed md me ep =
     \<lparr>equipment_dict = ed, measurement_dict = md, meas_eq_map = me, eq_phases_map = ep,
      measurement_value = Map.empty, input_map = Map.empty, next_ident = 0\<rparr>"

text \<open>
  \<^verbatim>\<open>_main\<close>, lines 204-274, from the data of the four query responses (capacitors,
  switches, capacitor measurements, switch measurements). The queries themselves are
  outside the embedding; when one of them raises, lines 256-257 are not reached and
  line 274 has no \<^verbatim>\<open>meas_eq_map\<close> to pass on, so no subscriber is built.
\<close>

definition main_subscriber ::
  "equipment list \<Rightarrow> equipment list \<Rightarrow> measurement list \<Rightarrow> measurement list \<Rightarrow> subscriber" where
  "main_subscriber capacitors switches cap_meas sw_meas =
     (let ed = add_equipment (add_equipment [] capacitors) switches;
          md = add_measurements (add_measurements [] cap_meas) sw_meas;
          mp = build_maps ed md
      in init_subscriber ed md (fst mp) (snd mp))"

subsection \<open>Events\<close>

text \<open>
  The headers read are \<^verbatim>\<open>headers["destination"]\<close> and \<^verbatim>\<open>headers["GOSS_SUBJECT"]\<close>. A
  message has one of two shapes: a command event holds
  \<^verbatim>\<open>message["input"]["message"]["forward_differences"]\<close>, an output event holds
  \<^verbatim>\<open>message["message"]["timestamp"]\<close> and, for each measurement id in
  \<^verbatim>\<open>message["message"]["measurements"]\<close>, its \<^verbatim>\<open>["value"]\<close>. Reading the part of the other
  shape is a \<^verbatim>\<open>KeyError\<close>.
\<close>

record headers =
  destination :: string
  GOSS_SUBJECT :: string

record difference =
  object :: string
  attribute :: string
  item_value :: pyval

datatype message =
  InputMessage "difference list"
| OutputMessage pyval "string \<rightharpoonup> pyval"

fun forward_differences :: "message \<Rightarrow> error + difference list" where
  "forward_differences (InputMessage items) = Inr items"
| "forward_differences (OutputMessage ts ms) = Inl (KeyError ''input'')"

fun message_value :: "message \<Rightarrow> string \<Rightarrow> error + pyval" where
  "message_value (InputMessage items) measurement = Inl (KeyError ''message'')"
| "message_value (OutputMessage ts ms) measurement =
     (case ms measurement of None \<Rightarrow> Inl (KeyError measurement) | Some v \<Rightarrow> Inr v)"

fun message_timestamp :: "message \<Rightarrow> error + pyval" where
  "message_timestamp (InputMessage items) = Inl (KeyError ''message'')"
| "message_timestamp (OutputMessage ts ms) = Inr ts"

subsection \<open>\<^verbatim>\<open>on_message\<close>: the command branch, lines 115-125\<close>

text \<open>
  An exception leaves the object as mutated so far, so every function returns the
  subscriber together with either the error raised or its result.

  \<open>new_input\<close> is the dictionary filled by lines 119-124, \<open>obj\<close> the identity of the
  object allocated by \<^verbatim>\<open>input = {}\<close>; \<open>record_input\<close> is the body of the loop over the
  forward differences. The two lookups that can raise are those of lines 123 and 124.
\<close>

definition new_input :: "nat \<Rightarrow> headers \<Rightarrow> difference \<Rightarrow> string \<Rightarrow> string \<Rightarrow> command" where
  "new_input obj hdr item name ph =
     \<lparr>ident = obj,
      equipment_mrid = object item,
      cmd_value = (if py_eq (item_value item) (PInt 1) then ''Open'' else ''Close''),
      created_by = GOSS_SUBJECT hdr,
      equipment_name = name,
      cmd_phases = ph,
      timestamp = None\<rparr>"

definition record_input :: "subscriber \<Rightarrow> headers \<Rightarrow> difference \<Rightarrow> subscriber \<times> (error + unit)" where
  "record_input self hdr item =
     (if object item \<in> set (map fst (equipment_dict self)) then
        if attribute item \<in> set [''ShuntCompensator.sections'', ''Switch.open''] then
          let self1 = self\<lparr>next_ident := Suc (next_ident self)\<rparr>
          in (case map_of (equipment_dict self1) (object item) of
                None \<Rightarrow> (self1, Inl (KeyError (object item)))
              | Some eq \<Rightarrow>
                  (case eq_phases_map self1 (object item) of
                     None \<Rightarrow> (self1, Inl (KeyError (object item)))
                   | Some ph \<Rightarrow>
                       (self1\<lparr>input_map := (input_map self1)(object item \<mapsto>
                           new_input (next_ident self) hdr item (eq_name eq) ph)\<rparr>,
                        Inr ())))
        else (self, Inr ())
      else (self, Inr ()))"

fun record_inputs :: "subscriber \<Rightarrow> headers \<Rightarrow> difference list \<Rightarrow> subscriber \<times> (error + unit)" where
  "record_inputs self hdr [] = (self, Inr ())"
| "record_inputs self hdr (item # rest) =
     (case record_input self hdr item of
        (self1, Inl e) \<Rightarrow> (self1, Inl e)
      | (self1, Inr u) \<Rightarrow> record_inputs self1 hdr rest)"

definition input_branch :: "subscriber \<Rightarrow> headers \<Rightarrow> message \<Rightarrow> subscriber \<times> (error + unit)" where
  "input_branch self hdr msg =
     (case forward_differences msg of
        Inl e \<Rightarrow> (self, Inl e)
      | Inr items \<Rightarrow> record_inputs self hdr items)"

subsection \<open>\<^verbatim>\<open>on_message\<close>: the output branch, lines 129-142\<close>

text \<open>
  \<open>check_measurement\<close> is the body of the loop over \<^verbatim>\<open>self.measurement_dict\<close>, with the
  local \<^verbatim>\<open>alarm_list\<close> passed along. The list is lost when an exception is raised.
\<close>

definition check_measurement ::
  "subscriber \<Rightarrow> message \<Rightarrow> string \<Rightarrow> command list \<Rightarrow> subscriber \<times> (error + command list)" where
  "check_measurement self msg measurement alarm_list =
     (case measurement_value self measurement of
        None \<Rightarrow>
          (case message_value msg measurement of
             Inl e \<Rightarrow> (self, Inl e)
           | Inr v \<Rightarrow>
               (self\<lparr>measurement_value := (measurement_value self)(measurement \<mapsto> v)\<rparr>, Inr alarm_list))
      | Some old \<Rightarrow>
          (case message_value msg measurement of
             Inl e \<Rightarrow> (self, Inl e)
           | Inr v \<Rightarrow>
               if \<not> py_eq old v then
                 let self1 = self\<lparr>measurement_value := (measurement_value self)(measurement \<mapsto> v)\<rparr>
                 in (case meas_eq_map self1 measurement of
                       None \<Rightarrow> (self1, Inl (KeyError measurement))
                     | Some mrid \<Rightarrow>
                         (case input_map self1 mrid of
                            None \<Rightarrow> (self1, Inr alarm_list)
                          | Some alarm \<Rightarrow>
                              let self2 = self1\<lparr>input_map := (input_map self1)(mrid := None)\<rparr>
                              in (case message_timestamp msg of
                                    Inl e \<Rightarrow> (self2, Inl e)
                                  | Inr ts \<Rightarrow>
                                      (self2, Inr (alarm_list @ [alarm\<lparr>timestamp := Some ts\<rparr>])))))
               else (self, Inr alarm_list)))"

fun check_measurements ::
  "subscriber \<Rightarrow> message \<Rightarrow> string list \<Rightarrow> command list \<Rightarrow> subscriber \<times> (error + command list)" where
  "check_measurements self msg [] alarm_list = (self, Inr alarm_list)"
| "check_measurements self msg (measurement # rest) alarm_list =
     (case check_measurement self msg measurement alarm_list of
        (self1, Inl e) \<Rightarrow> (self1, Inl e)
      | (self1, Inr alarm_list1) \<Rightarrow> check_measurements self1 msg rest alarm_list1)"

definition output_branch :: "subscriber \<Rightarrow> message \<Rightarrow> subscriber \<times> (error + command list)" where
  "output_branch self msg = check_measurements self msg (map fst (measurement_dict self)) []"

subsection \<open>\<^verbatim>\<open>on_message\<close>, lines 115-146\<close>

text \<open>
  The result lists the batches handed to \<^verbatim>\<open>self._gapps.send\<close> by this call (the topic is
  fixed and the serialisation by \<^verbatim>\<open>json.dumps\<close> is not modelled).
\<close>

definition on_message :: "subscriber \<Rightarrow> headers \<Rightarrow> message \<Rightarrow> subscriber \<times> (error + command list list)" where
  "on_message self hdr msg =
     (case (if contains (destination hdr) ''input'' then input_branch self hdr msg else (self, Inr ())) of
        (self1, Inl e) \<Rightarrow> (self1, Inl e)
      | (self1, Inr u) \<Rightarrow>
          (case (if contains (destination hdr) ''output'' then output_branch self1 msg else (self1, Inr [])) of
             (self2, Inl e) \<Rightarrow> (self2, Inl e)
           | (self2, Inr alarm_list) \<Rightarrow>
               (self2, Inr (if length alarm_list \<noteq> 0 then [alarm_list] else []))))"

text \<open>
  The subscription delivers the events one at a time. \<open>published\<close> collects, in order,
  the batches sent while a list of events is handled; an event whose handling raises
  sends nothing and leaves the subscriber as it was at the fault.
\<close>

fun sent :: "error + command list list \<Rightarrow> command list list" where
  "sent (Inl e) = []"
| "sent (Inr batches) = batches"

fun run :: "subscriber \<Rightarrow> (headers \<times> message) list \<Rightarrow> subscriber \<times> command list list" where
  "run self [] = (self, [])"
| "run self ((hdr, msg) # events) =
     (case on_message self hdr msg of
        (self1, out) \<Rightarrow>
          (case run self1 events of
             (self2, batches) \<Rightarrow> (self2, sent out @ batches)))"

definition published :: "subscriber \<Rightarrow> (headers \<times> message) list \<Rightarrow> command list" where
  "published self events = concat (snd (run self events))"

section \<open>Predicates of the proofs and example data\<close>

text \<open>The identities of the commands in the pending command table.\<close>

definition pending_idents :: "subscriber \<Rightarrow> nat set" where
  "pending_idents self = {ident c | e c. input_map self e = Some c}"

text \<open>
  The table holds objects allocated earlier, and one object is stored under one key only.
\<close>

definition fresh_idents :: "subscriber \<Rightarrow> bool" where
  "fresh_idents self \<longleftrightarrow>
     (\<forall>e c. input_map self e = Some c \<longrightarrow> ident c < next_ident self) \<and>
     (\<forall>e1 e2 c1 c2. input_map self e1 = Some c1 \<longrightarrow> input_map self e2 = Some c2 \<longrightarrow>
        ident c1 = ident c2 \<longrightarrow> e1 = e2)"

text \<open>
  The invariant of both scans: the alarms collected so far are distinct objects allocated
  earlier, none of which is still in the table.
\<close>

definition consistent :: "subscriber \<Rightarrow> command list \<Rightarrow> bool" where
  "consistent self alarm_list \<longleftrightarrow>
     fresh_idents self \<and> distinct (map ident alarm_list) \<and>
     (\<forall>a \<in> set alarm_list. ident a \<notin> pending_idents self) \<and>
     (\<forall>a \<in> set alarm_list. ident a < next_ident self)"

text \<open>
  Between two points of a run, the objects in the table or in the local alarm list
  either were there before or have been allocated in between.
\<close>

definition extends :: "subscriber \<Rightarrow> command list \<Rightarrow> subscriber \<Rightarrow> command list \<Rightarrow> bool" where
  "extends self al self' al' \<longleftrightarrow>
     next_ident self \<le> next_ident self' \<and>
     pending_idents self' \<union> ident ` set al' \<subseteq>
       pending_idents self \<union> ident ` set al \<union> {next_ident self ..< next_ident self'}"

text \<open>The alarms of a call that raised are dropped with the local list.\<close>

fun alarms_of :: "error + command list \<Rightarrow> command list" where
  "alarms_of (Inl e) = []"
| "alarms_of (Inr al) = al"

text \<open>What the two loop bodies leave alone: the metadata index.\<close>

definition same_index :: "subscriber \<Rightarrow> subscriber \<Rightarrow> bool" where
  "same_index self self' \<longleftrightarrow>
     equipment_dict self' = equipment_dict self \<and> measurement_dict self' = measurement_dict self \<and>
     meas_eq_map self' = meas_eq_map self \<and> eq_phases_map self' = eq_phases_map self"

text \<open>
  The example of the specification: a switch \<^verbatim>\<open>SW1\<close> with one position measurement \<^verbatim>\<open>M1\<close>
  on phase \<^verbatim>\<open>A\<close>, commands by \<^verbatim>\<open>sim-control\<close>, and readings of \<^verbatim>\<open>M1\<close>.
\<close>

definition sw1 :: equipment where
  "sw1 = \<lparr>eq_id = ''SW1'', eq_name = ''sw1''\<rparr>"

definition m1 :: measurement where
  "m1 = \<lparr>measid = ''M1'', meas_type = ''Pos'', eqid = ''SW1'', phases = ''A''\<rparr>"

definition example_subscriber :: subscriber where
  "example_subscriber = main_subscriber [] [sw1] [] [m1]"

definition input_headers :: headers where
  "input_headers = \<lparr>destination = ''/topic/goss.gridappsd.simulation.input.1234'',
     GOSS_SUBJECT = ''sim-control''\<rparr>"

definition output_headers :: headers where
  "output_headers = \<lparr>destination = ''/topic/goss.gridappsd.simulation.output.1234'',
     GOSS_SUBJECT = ''simulation''\<rparr>"

definition open_sw1 :: difference where
  "open_sw1 = \<lparr>object = ''SW1'', attribute = ''Switch.open'', item_value = PInt 1\<rparr>"

definition close_sw1 :: difference where
  "close_sw1 = \<lparr>object = ''SW1'', attribute = ''Switch.open'', item_value = PInt 0\<rparr>"

definition reading :: "int \<Rightarrow> int \<Rightarrow> message" where
  "reading ts v = OutputMessage (PInt ts) [''M1'' \<mapsto> PInt v]"

definition unknown_item :: difference where
  "unknown_item = \<lparr>object = ''XF9'', attribute = ''Switch.open'', item_value = PInt 1\<rparr>"

definition tap_item :: difference where
  "tap_item = \<lparr>object = ''SW1'', attribute = ''TapChanger.step'', item_value = PInt 1\<rparr>"

definition observed_subscriber :: subscriber where
  "observed_subscriber = fst (on_message example_subscriber output_headers (reading 900 0))"


definition m2 :: measurement where
  "m2 = \<lparr>measid = ''M2'', meas_type = ''Pos'', eqid = ''SW1'', phases = ''B''\<rparr>"

definition two_phase_subscriber :: subscriber where
  "two_phase_subscriber = main_subscriber [] [sw1] [] [m1, m2]"

definition scenario :: "(headers \<times> message) list" where
  "scenario = [(output_headers, reading 900 0), (input_headers, InputMessage [open_sw1]),
     (output_headers, reading 1000 1), (output_headers, reading 1100 0),
     (output_headers, reading 1200 1)]"

definition overwritten_subscriber :: subscriber where
  "overwritten_subscriber =
     fst (record_input (fst (record_input observed_subscriber input_headers open_sw1))
       input_headers close_sw1)"

definition unmeasured_subscriber :: subscriber where
  "unmeasured_subscriber = main_subscriber [] [sw1] [] []"

definition m1b :: measurement where
  "m1b = \<lparr>measid = ''M1b'', meas_type = ''Pos'', eqid = ''SW1'', phases = ''A''\<rparr>"

definition repeated_phase_subscriber :: subscriber where
  "repeated_phase_subscriber = main_subscriber [] [sw1] [] [m1, m1b]"

definition orphan_subscriber :: subscriber where
  "orphan_subscriber = main_subscriber [] [] [] [m1]"

section \<open>The two loop bodies by cases\<close>

lemma ident_new_input: "ident (new_input n hdr item name ph) = n"
  by (simp add: new_input_def)

lemma record_input_cases:
  assumes "record_input self hdr item = (self', out)"
  obtains (skip) "self' = self" "out = Inr ()"
      "object item \<notin> set (map fst (equipment_dict self)) \<or>
       attribute item \<notin> {''ShuntCompensator.sections'', ''Switch.open''}"
  | (fault) e where "self' = self\<lparr>next_ident := Suc (next_ident self)\<rparr>" "out = Inl e"
  | (store) eq ph where
      "object item \<in> set (map fst (equipment_dict self))"
      "attribute item = ''ShuntCompensator.sections'' \<or> attribute item = ''Switch.open''"
      "map_of (equipment_dict self) (object item) = Some eq"
      "eq_phases_map self (object item) = Some ph"
      "self' = self\<lparr>next_ident := Suc (next_ident self),
          input_map := (input_map self)(object item \<mapsto>
            new_input (next_ident self) hdr item (eq_name eq) ph)\<rparr>"
      "out = Inr ()"
proof (cases "object item \<in> set (map fst (equipment_dict self)) \<and>
    (attribute item = ''ShuntCompensator.sections'' \<or> attribute item = ''Switch.open'')")
  case False
  then have "record_input self hdr item = (self, Inr ())"
    by (auto simp: record_input_def)
  then have "(self', out) = (self, Inr ())" using assms by simp
  then have "self' = self" "out = Inr ()" by simp_all
  moreover from False have "object item \<notin> set (map fst (equipment_dict self)) \<or>
       attribute item \<notin> {''ShuntCompensator.sections'', ''Switch.open''}" by auto
  ultimately show ?thesis by (rule skip)
next
  case True
  show ?thesis
  proof (cases "map_of (equipment_dict self) (object item)")
    case None
    with True have "record_input self hdr item =
        (self\<lparr>next_ident := Suc (next_ident self)\<rparr>, Inl (KeyError (object item)))"
      by (simp add: record_input_def Let_def)
    then have "(self', out) =
        (self\<lparr>next_ident := Suc (next_ident self)\<rparr>, Inl (KeyError (object item)))"
      using assms by simp
    then have "self' = self\<lparr>next_ident := Suc (next_ident self)\<rparr>"
      "out = Inl (KeyError (object item))" by simp_all
    then show ?thesis by (rule fault)
  next
    case (Some eq)
    show ?thesis
    proof (cases "eq_phases_map self (object item)")
      case None
      with True Some have "record_input self hdr item =
          (self\<lparr>next_ident := Suc (next_ident self)\<rparr>, Inl (KeyError (object item)))"
        by (simp add: record_input_def Let_def)
      then have "(self', out) =
          (self\<lparr>next_ident := Suc (next_ident self)\<rparr>, Inl (KeyError (object item)))"
        using assms by simp
      then have "self' = self\<lparr>next_ident := Suc (next_ident self)\<rparr>"
        "out = Inl (KeyError (object item))" by simp_all
      then show ?thesis by (rule fault)
    next
      case ph: (Some ph)
      with True Some have "record_input self hdr item =
          (self\<lparr>next_ident := Suc (next_ident self),
             input_map := (input_map self)(object item \<mapsto>
               new_input (next_ident self) hdr item (eq_name eq) ph)\<rparr>, Inr ())"
        by (simp add: record_input_def Let_def)
      then have "(self', out) = (self\<lparr>next_ident := Suc (next_ident self),
             input_map := (input_map self)(object item \<mapsto>
               new_input (next_ident self) hdr item (eq_name eq) ph)\<rparr>, Inr ())"
        using assms by simp
      then have "self' = self\<lparr>next_ident := Suc (next_ident self),
             input_map := (input_map self)(object item \<mapsto>
               new_input (next_ident self) hdr item (eq_name eq) ph)\<rparr>" "out = Inr ()"
        by simp_all
      with True Some ph show ?thesis by (intro store) simp_all
    qed
  qed
qed

lemma check_measurement_cases:
  assumes "check_measurement self msg m al = (self', out)"
  obtains (fault) e where "self' = self" "out = Inl e" "message_value msg m = Inl e"
  | (first) v where "measurement_value self m = None" "message_value msg m = Inr v"
      "self' = self\<lparr>measurement_value := (measurement_value self)(m \<mapsto> v)\<rparr>" "out = Inr al"
  | (same) old v where "measurement_value self m = Some old" "message_value msg m = Inr v"
      "py_eq old v" "self' = self" "out = Inr al"
  | (unmapped) old v where "measurement_value self m = Some old" "message_value msg m = Inr v"
      "\<not> py_eq old v" "meas_eq_map self m = None"
      "self' = self\<lparr>measurement_value := (measurement_value self)(m \<mapsto> v)\<rparr>"
      "out = Inl (KeyError m)"
  | (quiet) old v mrid where "measurement_value self m = Some old" "message_value msg m = Inr v"
      "\<not> py_eq old v" "meas_eq_map self m = Some mrid" "input_map self mrid = None"
      "self' = self\<lparr>measurement_value := (measurement_value self)(m \<mapsto> v)\<rparr>"
      "out = Inr al"
  | (alarm) old v mrid alarm where "measurement_value self m = Some old"
      "message_value msg m = Inr v"
      "\<not> py_eq old v" "meas_eq_map self m = Some mrid" "input_map self mrid = Some alarm"
      "self' = self\<lparr>measurement_value := (measurement_value self)(m \<mapsto> v),
          input_map := (input_map self)(mrid := None)\<rparr>"
      "(\<exists>ts. message_timestamp msg = Inr ts \<and> out = Inr (al @ [alarm\<lparr>timestamp := Some ts\<rparr>])) \<or>
       (\<exists>e. message_timestamp msg = Inl e \<and> out = Inl e)"
proof (cases "message_value msg m")
  case (Inl e)
  then have "check_measurement self msg m al = (self, Inl e)"
    by (simp add: check_measurement_def split: option.splits)
  then have "(self', out) = (self, Inl e)" using assms by simp
  then have "self' = self" "out = Inl e" by simp_all
  then show ?thesis using Inl by (rule fault)
next
  case (Inr v)
  show ?thesis
  proof (cases "measurement_value self m")
    case None
    with Inr have "check_measurement self msg m al =
        (self\<lparr>measurement_value := (measurement_value self)(m \<mapsto> v)\<rparr>, Inr al)"
      by (simp add: check_measurement_def)
    then have "(self', out) =
        (self\<lparr>measurement_value := (measurement_value self)(m \<mapsto> v)\<rparr>, Inr al)"
      using assms by simp
    then have "self' = self\<lparr>measurement_value := (measurement_value self)(m \<mapsto> v)\<rparr>"
      "out = Inr al" by simp_all
    with None Inr show ?thesis by (rule first)
  next
    case (Some old)
    show ?thesis
    proof (cases "py_eq old v")
      case True
      with Inr Some have "check_measurement self msg m al = (self, Inr al)"
        by (simp add: check_measurement_def)
      then have "(self', out) = (self, Inr al)" using assms by simp
      then have "self' = self" "out = Inr al" by simp_all
      with Some Inr True show ?thesis by (rule same)
    next
      case False
      show ?thesis
      proof (cases "meas_eq_map self m")
        case None
        with Inr Some False have "check_measurement self msg m al =
            (self\<lparr>measurement_value := (measurement_value self)(m \<mapsto> v)\<rparr>, Inl (KeyError m))"
          by (simp add: check_measurement_def Let_def)
        then have "(self', out) =
            (self\<lparr>measurement_value := (measurement_value self)(m \<mapsto> v)\<rparr>, Inl (KeyError m))"
          using assms by simp
        then have "self' = self\<lparr>measurement_value := (measurement_value self)(m \<mapsto> v)\<rparr>"
          "out = Inl (KeyError m)" by simp_all
        with Some Inr False None show ?thesis by (rule unmapped)
      next
        case mrid: (Some mrid)
        show ?thesis
        proof (cases "input_map self mrid")
          case None
          with Inr Some False mrid have "check_measurement self msg m al =
              (self\<lparr>measurement_value := (measurement_value self)(m \<mapsto> v)\<rparr>, Inr al)"
            by (simp add: check_measurement_def Let_def)
          then have "(self', out) =
              (self\<lparr>measurement_value := (measurement_value self)(m \<mapsto> v)\<rparr>, Inr al)"
            using assms by simp
          then have "self' = self\<lparr>measurement_value := (measurement_value self)(m \<mapsto> v)\<rparr>"
            "out = Inr al" by simp_all
          with Some Inr False mrid None show ?thesis by (rule quiet)
        next
          case al: (Some a)
          with Inr Some False mrid have "check_measurement self msg m al =
              (self\<lparr>measurement_value := (measurement_value self)(m \<mapsto> v),
                  input_map := (input_map self)(mrid := None)\<rparr>,
               (case message_timestamp msg of Inl e \<Rightarrow> Inl e
                | Inr ts \<Rightarrow> Inr (al @ [a\<lparr>timestamp := Some ts\<rparr>])))"
            by (simp add: check_measurement_def Let_def split: sum.splits)
          then have "(self', out) =
              (self\<lparr>measurement_value := (measurement_value self)(m \<mapsto> v),
                  input_map := (input_map self)(mrid := None)\<rparr>,
               (case message_timestamp msg of Inl e \<Rightarrow> Inl e
                | Inr ts \<Rightarrow> Inr (al @ [a\<lparr>timestamp := Some ts\<rparr>])))"
            using assms by simp
          then have 1: "self' = self\<lparr>measurement_value := (measurement_value self)(m \<mapsto> v),
                  input_map := (input_map self)(mrid := None)\<rparr>"
            and 2: "out = (case message_timestamp msg of Inl e \<Rightarrow> Inl e
                | Inr ts \<Rightarrow> Inr (al @ [a\<lparr>timestamp := Some ts\<rparr>]))"
            by simp_all
          from 2 have "(\<exists>ts. message_timestamp msg = Inr ts \<and> out = Inr (al @ [a\<lparr>timestamp := Some ts\<rparr>])) \<or>
             (\<exists>e. message_timestamp msg = Inl e \<and> out = Inl e)"
            by (cases "message_timestamp msg") simp_all
          with Some Inr False mrid al 1 show ?thesis by (rule alarm)
        qed
      qed
    qed
  qed
qed

section \<open>Identities of pending commands and alarms\<close>

lemma extends_refl: "extends self al self al"
  by (simp add: extends_def)

lemma extends_trans:
  assumes "extends s1 a1 s2 a2" and "extends s2 a2 s3 a3"
  shows "extends s1 a1 s3 a3"
proof -
  have le: "next_ident s1 \<le> next_ident s2" "next_ident s2 \<le> next_ident s3"
    using assms by (simp_all add: extends_def)
  then have eq: "{next_ident s1 ..< next_ident s3} =
      {next_ident s1 ..< next_ident s2} \<union> {next_ident s2 ..< next_ident s3}"
    by (simp add: ivl_disj_un_two)
  have "pending_idents s2 \<union> ident ` set a2 \<subseteq>
      pending_idents s1 \<union> ident ` set a1 \<union> {next_ident s1 ..< next_ident s2}"
    using assms(1) by (simp add: extends_def)
  moreover have "pending_idents s3 \<union> ident ` set a3 \<subseteq>
      pending_idents s2 \<union> ident ` set a2 \<union> {next_ident s2 ..< next_ident s3}"
    using assms(2) by (simp add: extends_def)
  ultimately have "pending_idents s3 \<union> ident ` set a3 \<subseteq>
      pending_idents s1 \<union> ident ` set a1 \<union> {next_ident s1 ..< next_ident s3}"
    unfolding eq by blast
  with le show ?thesis by (simp add: extends_def)
qed

lemma fresh_idents_less:
  "fresh_idents self \<Longrightarrow> input_map self e = Some d \<Longrightarrow> ident d < next_ident self"
  by (simp add: fresh_idents_def)

lemma fresh_idents_inj:
  "fresh_idents self \<Longrightarrow> input_map self e1 = Some c1 \<Longrightarrow> input_map self e2 = Some c2
   \<Longrightarrow> ident c1 = ident c2 \<Longrightarrow> e1 = e2"
  unfolding fresh_idents_def by (elim conjE allE impE) assumption+

lemma consistent_fresh: "consistent self al \<Longrightarrow> fresh_idents self"
  by (simp add: consistent_def)

lemma consistent_drop: "consistent self al \<Longrightarrow> consistent self []"
  by (simp add: consistent_def)

lemma extends_drop: "extends self al self' al' \<Longrightarrow> extends self al self' []"
  by (simp add: extends_def)

lemma consistent_same_table:
  assumes "consistent self al" and "input_map self' = input_map self"
    and "next_ident self \<le> next_ident self'"
  shows "consistent self' al \<and> extends self al self' al"
proof -
  have p: "pending_idents self' = pending_idents self"
    using assms(2) by (simp add: pending_idents_def)
  have f: "fresh_idents self" and a: "\<forall>a \<in> set al. ident a < next_ident self"
    using assms(1) by (simp_all add: consistent_def)
  have "\<forall>e c. input_map self e = Some c \<longrightarrow> ident c < next_ident self'"
  proof (intro allI impI)
    fix e c
    assume "input_map self e = Some c"
    with f have "ident c < next_ident self" by (rule fresh_idents_less)
    with assms(3) show "ident c < next_ident self'" by simp
  qed
  with f have "fresh_idents self'"
    unfolding fresh_idents_def assms(2) by blast
  moreover have "\<forall>a \<in> set al. ident a < next_ident self'"
  proof
    fix a
    assume "a \<in> set al"
    with a have "ident a < next_ident self" by simp
    with assms(3) show "ident a < next_ident self'" by simp
  qed
  ultimately have "consistent self' al"
    using assms(1) p by (simp add: consistent_def)
  moreover have "extends self al self' al"
    using assms(3) p by (simp add: extends_def le_supI1)
  ultimately show ?thesis by simp
qed

lemma consistent_store:
  assumes "consistent self al"
    and t: "input_map self' = (input_map self)(k \<mapsto> c)"
    and i: "ident c = next_ident self"
    and n: "next_ident self' = Suc (next_ident self)"
  shows "consistent self' al \<and> extends self al self' al"
proof -
  have fr: "fresh_idents self" using assms(1) by (rule consistent_fresh)
  have old: "\<And>e d. input_map self e = Some d \<Longrightarrow> ident d < next_ident self"
    using fr by (rule fresh_idents_less)
  have inj: "\<And>e1 e2 c1 c2. input_map self e1 = Some c1 \<Longrightarrow> input_map self e2 = Some c2
      \<Longrightarrow> ident c1 = ident c2 \<Longrightarrow> e1 = e2"
    using fr by (rule fresh_idents_inj)
  have new: "\<And>e d. input_map self' e = Some d \<Longrightarrow>
      (e = k \<and> d = c) \<or> (e \<noteq> k \<and> input_map self e = Some d)"
    unfolding t by (simp split: if_splits)
  have p: "pending_idents self' \<subseteq> pending_idents self \<union> {next_ident self}"
  proof
    fix x
    assume "x \<in> pending_idents self'"
    then obtain e d where "input_map self' e = Some d" "x = ident d"
      unfolding pending_idents_def by blast
    with new[of e d] i show "x \<in> pending_idents self \<union> {next_ident self}"
      unfolding pending_idents_def by blast
  qed
  have f: "fresh_idents self'"
    unfolding fresh_idents_def
  proof (intro conjI allI impI)
    fix e d
    assume "input_map self' e = Some d"
    from new[OF this] show "ident d < next_ident self'"
    proof
      assume "e = k \<and> d = c"
      with i n show ?thesis by simp
    next
      assume "e \<noteq> k \<and> input_map self e = Some d"
      then have "ident d < next_ident self" using old by blast
      with n show ?thesis by simp
    qed
  next
    fix e1 e2 c1 c2
    assume h1: "input_map self' e1 = Some c1" and h2: "input_map self' e2 = Some c2"
      and h3: "ident c1 = ident c2"
    from new[OF h1] new[OF h2] show "e1 = e2"
    proof (elim disjE conjE)
      assume "e1 = k" "e2 = k"
      then show ?thesis by simp
    next
      assume "e1 = k" "c1 = c" "input_map self e2 = Some c2"
      with old[of e2 c2] h3 i show ?thesis by simp
    next
      assume "e2 = k" "c2 = c" "input_map self e1 = Some c1"
      with old[of e1 c1] h3 i show ?thesis by simp
    next
      assume "input_map self e1 = Some c1" "input_map self e2 = Some c2"
      then show ?thesis using h3 by (rule inj)
    qed
  qed
  have a: "\<forall>a \<in> set al. ident a < next_ident self"
    using assms(1) by (simp add: consistent_def)
  have a': "\<forall>a \<in> set al. ident a < next_ident self'"
  proof
    fix x
    assume "x \<in> set al"
    with a have "ident x < next_ident self" by simp
    with n show "ident x < next_ident self'" by simp
  qed
  have d: "\<forall>a \<in> set al. ident a \<notin> pending_idents self'"
  proof
    fix x
    assume x: "x \<in> set al"
    then have "ident x \<notin> pending_idents self"
      using assms(1) by (simp add: consistent_def)
    moreover have "ident x \<noteq> next_ident self" using a x by auto
    ultimately show "ident x \<notin> pending_idents self'" using p by blast
  qed
  have "distinct (map ident al)" using assms(1) by (simp add: consistent_def)
  with f a' d have "consistent self' al" by (simp add: consistent_def)
  moreover have "extends self al self' al"
  proof -
    have eq: "{next_ident self ..< next_ident self'} = {next_ident self}"
      using n by simp
    have "pending_idents self' \<union> ident ` set al \<subseteq>
        pending_idents self \<union> ident ` set al \<union> {next_ident self ..< next_ident self'}"
      unfolding eq using p by blast
    then show ?thesis using n by (simp add: extends_def)
  qed
  ultimately show ?thesis by simp
qed

lemma consistent_consume:
  assumes "consistent self al"
    and t: "input_map self' = (input_map self)(k := None)"
    and n: "next_ident self' = next_ident self"
    and c: "input_map self k = Some alarm"
    and i: "ident alarm' = ident alarm"
  shows "consistent self' (al @ [alarm']) \<and> extends self al self' (al @ [alarm'])"
proof -
  have fr: "fresh_idents self" using assms(1) by (rule consistent_fresh)
  have old: "\<And>e d. input_map self e = Some d \<Longrightarrow> ident d < next_ident self"
    using fr by (rule fresh_idents_less)
  have inj: "\<And>e1 e2 c1 c2. input_map self e1 = Some c1 \<Longrightarrow> input_map self e2 = Some c2
      \<Longrightarrow> ident c1 = ident c2 \<Longrightarrow> e1 = e2"
    using fr by (rule fresh_idents_inj)
  have sub: "\<And>e d. input_map self' e = Some d \<Longrightarrow> input_map self e = Some d \<and> e \<noteq> k"
    unfolding t by (simp split: if_splits)
  have p: "pending_idents self' \<subseteq> pending_idents self"
    using sub unfolding pending_idents_def by blast
  have a1: "ident alarm \<in> pending_idents self"
    using c unfolding pending_idents_def by blast
  have a2: "ident alarm \<notin> pending_idents self'"
  proof
    assume "ident alarm \<in> pending_idents self'"
    then obtain e d where h: "input_map self' e = Some d" "ident alarm = ident d"
      unfolding pending_idents_def by blast
    from sub[OF h(1)] have "input_map self e = Some d" "e \<noteq> k" by simp_all
    moreover from c this(1) h(2) have "k = e" by (rule inj)
    ultimately show False by simp
  qed
  have f: "fresh_idents self'"
    unfolding fresh_idents_def
  proof (intro conjI allI impI)
    fix e d
    assume "input_map self' e = Some d"
    then have "input_map self e = Some d" using sub by blast
    then show "ident d < next_ident self'" using old n by simp
  next
    fix e1 e2 c1 c2
    assume "input_map self' e1 = Some c1" "input_map self' e2 = Some c2" "ident c1 = ident c2"
    then have "input_map self e1 = Some c1" "input_map self e2 = Some c2" "ident c1 = ident c2"
      using sub by blast+
    then show "e1 = e2" by (rule inj)
  qed
  have l: "ident alarm < next_ident self" using c by (rule old)
  have k: "distinct (map ident al)" "\<forall>a \<in> set al. ident a \<notin> pending_idents self"
    "\<forall>a \<in> set al. ident a < next_ident self"
    using assms(1) by (simp_all add: consistent_def)
  have m: "ident alarm \<notin> ident ` set al"
  proof
    assume "ident alarm \<in> ident ` set al"
    then obtain x where "x \<in> set al" "ident alarm = ident x" by (rule imageE)
    with k(2) a1 show False by simp
  qed
  have "consistent self' (al @ [alarm'])"
    unfolding consistent_def
  proof (intro conjI)
    show "fresh_idents self'" by (rule f)
    show "distinct (map ident (al @ [alarm']))" using k(1) m i by simp
    show "\<forall>a \<in> set (al @ [alarm']). ident a \<notin> pending_idents self'"
    proof
      fix x
      assume "x \<in> set (al @ [alarm'])"
      then have "x \<in> set al \<or> x = alarm'" by auto
      then show "ident x \<notin> pending_idents self'"
      proof
        assume "x \<in> set al"
        with k(2) have "ident x \<notin> pending_idents self" by simp
        with p show ?thesis by (rule contra_subsetD)
      next
        assume "x = alarm'"
        with a2 i show ?thesis by simp
      qed
    qed
    show "\<forall>a \<in> set (al @ [alarm']). ident a < next_ident self'"
    proof
      fix x
      assume "x \<in> set (al @ [alarm'])"
      then have "x \<in> set al \<or> x = alarm'" by auto
      then show "ident x < next_ident self'"
      proof
        assume "x \<in> set al"
        with k(3) n show ?thesis by simp
      next
        assume "x = alarm'"
        with l n i show ?thesis by simp
      qed
    qed
  qed
  moreover have "extends self al self' (al @ [alarm'])"
  proof -
    have eq: "ident ` set (al @ [alarm']) = insert (ident alarm) (ident ` set al)"
      using i by simp
    have "pending_idents self' \<union> ident ` set (al @ [alarm']) \<subseteq>
        pending_idents self \<union> ident ` set al"
      unfolding eq using p a1 by blast
    then show ?thesis using n by (simp add: extends_def le_supI1)
  qed
  ultimately show ?thesis by simp
qed

lemma record_input_consistent:
  assumes "consistent self al" and "record_input self hdr item = (self', out)"
  shows "consistent self' al \<and> extends self al self' al"
  using assms(2)
proof (cases rule: record_input_cases)
  case skip
  with assms(1) show ?thesis by (simp add: extends_refl)
next
  case (fault e)
  show ?thesis
    by (rule consistent_same_table[OF assms(1)]) (simp_all add: fault(1))
next
  case (store eq ph)
  show ?thesis
    by (rule consistent_store[OF assms(1), where k = "object item"
          and c = "new_input (next_ident self) hdr item (eq_name eq) ph"])
       (simp_all add: store(5) ident_new_input)
qed

lemma record_inputs_consistent:
  "consistent self al \<Longrightarrow> record_inputs self hdr items = (self', out)
   \<Longrightarrow> consistent self' al \<and> extends self al self' al"
proof (induction items arbitrary: self)
  case Nil
  then show ?case by (simp add: extends_refl)
next
  case (Cons item items)
  obtain s1 o1 where r: "record_input self hdr item = (s1, o1)"
    by (cases "record_input self hdr item")
  from record_input_consistent[OF Cons.prems(1) r]
  have c1: "consistent s1 al" and e1: "extends self al s1 al" by simp_all
  show ?case
  proof (cases o1)
    case (Inl e)
    with Cons.prems(2) r have "self' = s1" by simp
    with c1 e1 show ?thesis by simp
  next
    case (Inr u)
    with Cons.prems(2) r have "record_inputs s1 hdr items = (self', out)" by simp
    from Cons.IH[OF c1 this] have c2: "consistent self' al" and e2: "extends s1 al self' al"
      by simp_all
    from e1 e2 have "extends self al self' al" by (rule extends_trans)
    with c2 show ?thesis by simp
  qed
qed

lemma check_measurement_consistent:
  assumes "consistent self al" and "check_measurement self msg m al = (self', out)"
  shows "consistent self' (alarms_of out) \<and> extends self al self' (alarms_of out)"
  using assms(2)
proof (cases rule: check_measurement_cases)
  case (fault e)
  have "consistent self []" using assms(1) by (rule consistent_drop)
  moreover have "extends self al self []" using extends_refl by (rule extends_drop)
  ultimately show ?thesis using fault by simp
next
  case (first v)
  have "consistent self' al \<and> extends self al self' al"
    by (rule consistent_same_table[OF assms(1)]) (simp_all add: first(3))
  with first(4) show ?thesis by simp
next
  case (same old v)
  with assms(1) show ?thesis by (simp add: extends_refl)
next
  case (unmapped old v)
  have "consistent self' al \<and> extends self al self' al"
    by (rule consistent_same_table[OF assms(1)]) (simp_all add: unmapped(5))
  then have "consistent self' [] \<and> extends self al self' []"
    using consistent_drop extends_drop by blast
  with unmapped(6) show ?thesis by simp
next
  case (quiet old v mrid)
  have "consistent self' al \<and> extends self al self' al"
    by (rule consistent_same_table[OF assms(1)]) (simp_all add: quiet(6))
  with quiet(7) show ?thesis by simp
next
  case (alarm old v mrid a)
  have t: "input_map self' = (input_map self)(mrid := None)" "next_ident self' = next_ident self"
    by (simp_all add: alarm(6))
  from alarm(7) show ?thesis
  proof (elim disjE exE conjE)
    fix ts
    assume "message_timestamp msg = Inr ts" and o: "out = Inr (al @ [a\<lparr>timestamp := Some ts\<rparr>])"
    have "consistent self' (al @ [a\<lparr>timestamp := Some ts\<rparr>]) \<and>
        extends self al self' (al @ [a\<lparr>timestamp := Some ts\<rparr>])"
      by (rule consistent_consume[OF assms(1) t alarm(5)]) simp
    with o show ?thesis by simp
  next
    fix e
    assume "message_timestamp msg = Inl e" and o: "out = Inl e"
    have "consistent self' (al @ [a]) \<and> extends self al self' (al @ [a])"
      by (rule consistent_consume[OF assms(1) t alarm(5)]) simp
    then have "consistent self' [] \<and> extends self al self' []"
      using consistent_drop extends_drop by blast
    with o show ?thesis by simp
  qed
qed

lemma check_measurements_consistent:
  "consistent self al \<Longrightarrow> check_measurements self msg ms al = (self', out)
   \<Longrightarrow> consistent self' (alarms_of out) \<and> extends self al self' (alarms_of out)"
proof (induction ms arbitrary: self al)
  case Nil
  then show ?case by (auto simp: extends_refl)
next
  case (Cons m ms)
  obtain s1 o1 where r: "check_measurement self msg m al = (s1, o1)"
    by (cases "check_measurement self msg m al")
  from check_measurement_consistent[OF Cons.prems(1) r]
  have c1: "consistent s1 (alarms_of o1)" and e1: "extends self al s1 (alarms_of o1)"
    by simp_all
  show ?case
  proof (cases o1)
    case (Inl e)
    with Cons.prems(2) r have "self' = s1" "out = Inl e" by simp_all
    with c1 e1 Inl show ?thesis by simp
  next
    case (Inr al1)
    with Cons.prems(2) r have rest: "check_measurements s1 msg ms al1 = (self', out)" by simp
    from c1 Inr have c1': "consistent s1 al1" by simp
    from e1 Inr have e1': "extends self al s1 al1" by simp
    from Cons.IH[OF c1' rest] have c2: "consistent self' (alarms_of out)"
      and e2: "extends s1 al1 self' (alarms_of out)" by simp_all
    from e1' e2 have "extends self al self' (alarms_of out)" by (rule extends_trans)
    with c2 show ?thesis by simp
  qed
qed

subsection \<open>One call and a list of events\<close>

lemma input_branch_consistent:
  assumes "consistent self al" and "input_branch self hdr msg = (self', out)"
  shows "consistent self' al \<and> extends self al self' al"
proof (cases "forward_differences msg")
  case (Inl e)
  with assms(2) have "self' = self" by (simp add: input_branch_def)
  with assms(1) show ?thesis by (simp add: extends_refl)
next
  case (Inr items)
  with assms(2) have "record_inputs self hdr items = (self', out)"
    by (simp add: input_branch_def)
  with assms(1) show ?thesis by (rule record_inputs_consistent)
qed

lemma on_message_split:
  assumes "on_message self hdr msg = (self', out)"
  obtains (input_fault) e where
      "contains (destination hdr) ''input''" "input_branch self hdr msg = (self', Inl e)"
      "out = Inl e"
  | (proceed) self1 o2 where
      "if contains (destination hdr) ''input'' then input_branch self hdr msg = (self1, Inr ())
       else self1 = self"
      "if contains (destination hdr) ''output'' then output_branch self1 msg = (self', o2)
       else self' = self1 \<and> o2 = Inr []"
      "out = (case o2 of Inl e \<Rightarrow> Inl e
              | Inr alarm_list \<Rightarrow> Inr (if length alarm_list \<noteq> 0 then [alarm_list] else []))"
proof -
  obtain self1 o1 where i: "(if contains (destination hdr) ''input''
      then input_branch self hdr msg else (self, Inr ())) = (self1, o1)"
    by (cases "if contains (destination hdr) ''input''
      then input_branch self hdr msg else (self, Inr ())")
  show ?thesis
  proof (cases o1)
    case (Inl e)
    have "on_message self hdr msg = (self1, Inl e)"
      by (simp add: on_message_def i Inl)
    with assms have "(self', out) = (self1, Inl e)" by simp
    then have eq: "self' = self1" "out = Inl e" by simp_all
    have c: "contains (destination hdr) ''input''"
      using i Inl by (simp split: if_splits)
    with i Inl eq have "input_branch self hdr msg = (self', Inl e)" by simp
    with c show ?thesis using eq(2) by (rule input_fault)
  next
    case (Inr u)
    obtain self2 o2 where o: "(if contains (destination hdr) ''output''
        then output_branch self1 msg else (self1, Inr [])) = (self2, o2)"
      by (cases "if contains (destination hdr) ''output''
        then output_branch self1 msg else (self1, Inr [])")
    have "on_message self hdr msg = (self2, (case o2 of Inl e \<Rightarrow> Inl e
              | Inr alarm_list \<Rightarrow> Inr (if length alarm_list \<noteq> 0 then [alarm_list] else [])))"
      by (cases o2) (simp_all add: on_message_def i Inr o)
    with assms have "(self', out) = (self2, (case o2 of Inl e \<Rightarrow> Inl e
              | Inr alarm_list \<Rightarrow> Inr (if length alarm_list \<noteq> 0 then [alarm_list] else [])))"
      by simp
    then have eq: "self' = self2" "out = (case o2 of Inl e \<Rightarrow> Inl e
              | Inr alarm_list \<Rightarrow> Inr (if length alarm_list \<noteq> 0 then [alarm_list] else []))"
      by simp_all
    have 1: "if contains (destination hdr) ''input'' then input_branch self hdr msg = (self1, Inr ())
       else self1 = self"
      using i Inr by (simp split: if_splits)
    have 2: "if contains (destination hdr) ''output'' then output_branch self1 msg = (self', o2)
       else self' = self1 \<and> o2 = Inr []"
      using o eq(1) by (simp split: if_splits)
    from 1 2 eq(2) show ?thesis by (rule proceed)
  qed
qed

lemma concat_sent:
  "concat (sent (case o2 of Inl e \<Rightarrow> Inl e
      | Inr alarm_list \<Rightarrow> Inr (if length alarm_list \<noteq> 0 then [alarm_list] else []))) =
   alarms_of o2"
  by (cases o2) simp_all

lemma on_message_consistent:
  assumes "consistent self []" and "on_message self hdr msg = (self', out)"
  shows "consistent self' (concat (sent out)) \<and> extends self [] self' (concat (sent out))"
  using assms(2)
proof (cases rule: on_message_split)
  case (input_fault e)
  from input_branch_consistent[OF assms(1) input_fault(2)] input_fault(3)
  show ?thesis by simp
next
  case (proceed self1 o2)
  have 1: "consistent self1 [] \<and> extends self [] self1 []"
  proof (cases "contains (destination hdr) ''input''")
    case True
    with proceed(1) have "input_branch self hdr msg = (self1, Inr ())" by simp
    with assms(1) show ?thesis by (rule input_branch_consistent)
  next
    case False
    with proceed(1) have "self1 = self" by simp
    with assms(1) show ?thesis by (simp add: extends_refl)
  qed
  have 2: "consistent self' (alarms_of o2) \<and> extends self1 [] self' (alarms_of o2)"
  proof (cases "contains (destination hdr) ''output''")
    case True
    with proceed(2) have "check_measurements self1 msg (map fst (measurement_dict self1)) [] = (self', o2)"
      by (simp add: output_branch_def)
    with 1 show ?thesis by (intro check_measurements_consistent) simp_all
  next
    case False
    with proceed(2) have "self' = self1" "o2 = Inr []" by simp_all
    with 1 show ?thesis by (simp add: extends_refl)
  qed
  have "extends self [] self' (alarms_of o2)"
    using 1 2 by (blast intro: extends_trans)
  with 2 show ?thesis unfolding proceed(3) concat_sent by simp
qed

lemma published_Nil: "published self [] = []"
  by (simp add: published_def)

lemma published_Cons:
  "on_message self hdr msg = (self1, out) \<Longrightarrow>
   published self ((hdr, msg) # events) = concat (sent out) @ published self1 events"
  by (simp add: published_def split: prod.splits)

lemma fresh_idents_consistent: "fresh_idents self \<Longrightarrow> consistent self []"
  by (simp add: consistent_def)

lemma extends_nilD:
  assumes "extends self [] self' al"
  shows "next_ident self \<le> next_ident self'"
    and "\<And>x. x \<in> pending_idents self' \<Longrightarrow> x \<in> pending_idents self \<or> next_ident self \<le> x"
    and "\<And>a. a \<in> set al \<Longrightarrow> ident a \<in> pending_idents self \<or> next_ident self \<le> ident a"
proof -
  have s: "pending_idents self' \<union> ident ` set al \<subseteq>
       pending_idents self \<union> {next_ident self ..< next_ident self'}"
    using assms by (simp add: extends_def)
  show "next_ident self \<le> next_ident self'" using assms by (simp add: extends_def)
  show "x \<in> pending_idents self \<or> next_ident self \<le> x" if "x \<in> pending_idents self'" for x
  proof -
    from that s have "x \<in> pending_idents self \<union> {next_ident self ..< next_ident self'}"
      by blast
    then show ?thesis by auto
  qed
  show "ident a \<in> pending_idents self \<or> next_ident self \<le> ident a" if "a \<in> set al" for a
  proof -
    from that have "ident a \<in> ident ` set al" by (rule imageI)
    with s have "ident a \<in> pending_idents self \<union> {next_ident self ..< next_ident self'}"
      by blast
    then show ?thesis by auto
  qed
qed

lemma run_published:
  "fresh_idents self \<Longrightarrow>
   distinct (map ident (published self events)) \<and>
   (\<forall>a \<in> set (published self events). ident a \<in> pending_idents self \<or> next_ident self \<le> ident a)"
proof (induction events arbitrary: self)
  case Nil
  show ?case by (simp add: published_Nil)
next
  case (Cons ev events)
  obtain hdr msg where ev: "ev = (hdr, msg)" by (cases ev)
  obtain self1 out where om: "on_message self hdr msg = (self1, out)"
    by (cases "on_message self hdr msg")
  define E where "E = concat (sent out)"
  define P where "P = published self1 events"
  have pub: "published self (ev # events) = E @ P"
    unfolding ev E_def P_def using om by (rule published_Cons)
  from Cons.prems have "consistent self []" by (rule fresh_idents_consistent)
  from on_message_consistent[OF this om]
  have c: "consistent self1 E" and e: "extends self [] self1 E"
    unfolding E_def by simp_all
  from c have f1: "fresh_idents self1" by (rule consistent_fresh)
  from Cons.IH[OF f1] have dP: "distinct (map ident P)"
    and rP: "\<And>b. b \<in> set P \<Longrightarrow> ident b \<in> pending_idents self1 \<or> next_ident self1 \<le> ident b"
    unfolding P_def by simp_all
  from c have dE: "distinct (map ident E)"
    and nE: "\<And>a. a \<in> set E \<Longrightarrow> ident a \<notin> pending_idents self1"
    and lE: "\<And>a. a \<in> set E \<Longrightarrow> ident a < next_ident self1"
    by (simp_all add: consistent_def)
  have disj: "ident ` set E \<inter> ident ` set P = {}"
  proof (rule ccontr)
    assume "ident ` set E \<inter> ident ` set P \<noteq> {}"
    then obtain a b where ab: "a \<in> set E" "b \<in> set P" "ident a = ident b" by auto
    from rP[OF ab(2)] nE[OF ab(1)] lE[OF ab(1)] ab(3) show False by auto
  qed
  have 1: "distinct (map ident (published self (ev # events)))"
    unfolding pub using dE dP disj by simp
  have 2: "\<forall>a \<in> set (published self (ev # events)).
      ident a \<in> pending_idents self \<or> next_ident self \<le> ident a"
  proof
    fix a
    assume "a \<in> set (published self (ev # events))"
    then have "a \<in> set E \<or> a \<in> set P" unfolding pub by auto
    then show "ident a \<in> pending_idents self \<or> next_ident self \<le> ident a"
    proof
      assume "a \<in> set E"
      then show ?thesis by (rule extends_nilD(3)[OF e])
    next
      assume "a \<in> set P"
      from rP[OF this] show ?thesis
      proof
        assume "ident a \<in> pending_idents self1"
        then show ?thesis by (rule extends_nilD(2)[OF e])
      next
        assume "next_ident self1 \<le> ident a"
        with extends_nilD(1)[OF e] show ?thesis by simp
      qed
    qed
  qed
  from 1 2 show ?case by simp
qed

section \<open>Frame conditions and the scan of the measurements\<close>

lemma same_index_refl: "same_index self self"
  by (simp add: same_index_def)

lemma same_index_trans: "same_index s1 s2 \<Longrightarrow> same_index s2 s3 \<Longrightarrow> same_index s1 s3"
  by (simp add: same_index_def)

lemma record_input_frame:
  assumes "record_input self hdr item = (self', out)"
  shows "same_index self self' \<and> measurement_value self' = measurement_value self"
  using assms by (cases rule: record_input_cases) (simp_all add: same_index_def)

lemma record_inputs_frame:
  "record_inputs self hdr items = (self', out) \<Longrightarrow>
   same_index self self' \<and> measurement_value self' = measurement_value self"
proof (induction items arbitrary: self)
  case Nil
  then show ?case by (simp add: same_index_refl)
next
  case (Cons item items)
  obtain s1 o1 where r: "record_input self hdr item = (s1, o1)"
    by (cases "record_input self hdr item")
  from record_input_frame[OF r]
  have f: "same_index self s1" "measurement_value s1 = measurement_value self" by simp_all
  show ?case
  proof (cases o1)
    case (Inl e)
    with Cons.prems r have "self' = s1" by simp
    with f show ?thesis by simp
  next
    case (Inr u)
    with Cons.prems r have "record_inputs s1 hdr items = (self', out)" by simp
    from Cons.IH[OF this] f show ?thesis by (auto intro: same_index_trans)
  qed
qed

lemma input_branch_frame:
  assumes "input_branch self hdr msg = (self', out)"
  shows "same_index self self' \<and> measurement_value self' = measurement_value self"
proof (cases "forward_differences msg")
  case (Inl e)
  with assms have "self' = self" by (simp add: input_branch_def)
  then show ?thesis by (simp add: same_index_refl)
next
  case (Inr items)
  with assms have "record_inputs self hdr items = (self', out)"
    by (simp add: input_branch_def)
  then show ?thesis by (rule record_inputs_frame)
qed

lemma check_measurement_frame:
  assumes "check_measurement self msg m al = (self', out)"
  shows "same_index self self' \<and> next_ident self' = next_ident self \<and>
         (\<forall>m'. m' \<noteq> m \<longrightarrow> measurement_value self' m' = measurement_value self m')"
  using assms by (cases rule: check_measurement_cases) (simp_all add: same_index_def)

lemma check_measurements_frame:
  "check_measurements self msg ms al = (self', out) \<Longrightarrow>
   same_index self self' \<and> next_ident self' = next_ident self \<and>
   (\<forall>m'. m' \<notin> set ms \<longrightarrow> measurement_value self' m' = measurement_value self m')"
proof (induction ms arbitrary: self al)
  case Nil
  then show ?case by (simp add: same_index_refl)
next
  case (Cons m ms)
  obtain s1 o1 where r: "check_measurement self msg m al = (s1, o1)"
    by (cases "check_measurement self msg m al")
  from check_measurement_frame[OF r]
  have f: "same_index self s1" "next_ident s1 = next_ident self"
    "\<And>m'. m' \<noteq> m \<Longrightarrow> measurement_value s1 m' = measurement_value self m'" by simp_all
  show ?case
  proof (cases o1)
    case (Inl e)
    with Cons.prems r have "self' = s1" by simp
    with f show ?thesis by simp
  next
    case (Inr al1)
    with Cons.prems r have "check_measurements s1 msg ms al1 = (self', out)" by simp
    from Cons.IH[OF this]
    have g: "same_index s1 self'" "next_ident self' = next_ident s1"
      "\<And>m'. m' \<notin> set ms \<Longrightarrow> measurement_value self' m' = measurement_value s1 m'" by simp_all
    from f(1) g(1) have "same_index self self'" by (rule same_index_trans)
    moreover have "next_ident self' = next_ident self" using f(2) g(2) by simp
    moreover have "\<forall>m'. m' \<notin> set (m # ms) \<longrightarrow> measurement_value self' m' = measurement_value self m'"
      using f(3) g(3) by simp
    ultimately show ?thesis by simp
  qed
qed

lemma check_measurements_append:
  "check_measurements self msg (xs @ ys) al =
     (case check_measurements self msg xs al of
        (self1, Inl e) \<Rightarrow> (self1, Inl e)
      | (self1, Inr al1) \<Rightarrow> check_measurements self1 msg ys al1)"
proof (induction xs arbitrary: self al)
  case Nil
  show ?case by simp
next
  case (Cons x xs)
  obtain s1 o1 where r: "check_measurement self msg x al = (s1, o1)"
    by (cases "check_measurement self msg x al")
  show ?case
  proof (cases o1)
    case (Inl e)
    with r show ?thesis by simp
  next
    case (Inr al1)
    with r Cons.IH[of s1 al1] show ?thesis by simp
  qed
qed

lemma check_measurement_missing:
  "message_value msg m = Inl e \<Longrightarrow> check_measurement self msg m al = (self, Inl e)"
  by (simp add: check_measurement_def split: option.splits)

lemma check_measurements_completes:
  "check_measurements self msg ms al = (self', Inr al') \<Longrightarrow>
   \<forall>m \<in> set ms. \<exists>v. message_value msg m = Inr v"
proof (induction ms arbitrary: self al)
  case Nil
  show ?case by simp
next
  case (Cons m ms)
  obtain s1 o1 where r: "check_measurement self msg m al = (s1, o1)"
    by (cases "check_measurement self msg m al")
  show ?case
  proof (cases o1)
    case (Inl e)
    with Cons.prems r show ?thesis by simp
  next
    case (Inr al1)
    with Cons.prems r have rest: "check_measurements s1 msg ms al1 = (self', Inr al')" by simp
    have "\<exists>v. message_value msg m = Inr v"
    proof (cases "message_value msg m")
      case (Inl e)
      then have "check_measurement self msg m al = (self, Inl e)"
        by (rule check_measurement_missing)
      with r Inr show ?thesis by simp
    next
      case (Inr v)
      then show ?thesis by simp
    qed
    with Cons.IH[OF rest] show ?thesis by simp
  qed
qed

lemma check_measurements_stop:
  assumes "message_value msg m = Inl e"
  shows "fst (check_measurements self msg (pre @ m # post) al) = fst (check_measurements self msg pre al)
    \<and> (\<exists>e'. snd (check_measurements self msg (pre @ m # post) al) = Inl e')"
proof -
  obtain s1 o1 where r: "check_measurements self msg pre al = (s1, o1)"
    by (cases "check_measurements self msg pre al")
  show ?thesis
  proof (cases o1)
    case (Inl e')
    with r show ?thesis by (simp add: check_measurements_append)
  next
    case (Inr al1)
    with r check_measurement_missing[OF assms, of s1 al1] show ?thesis
      by (simp add: check_measurements_append)
  qed
qed

lemma check_measurements_first:
  "distinct ms \<Longrightarrow> m \<in> set ms \<Longrightarrow> measurement_value self m = None \<Longrightarrow>
   message_value msg m = Inr v \<Longrightarrow> check_measurements self msg ms al = (self', Inr al') \<Longrightarrow>
   measurement_value self' m = Some v"
proof (induction ms arbitrary: self al)
  case Nil
  then show ?case by simp
next
  case (Cons x xs)
  obtain s1 o1 where r: "check_measurement self msg x al = (s1, o1)"
    by (cases "check_measurement self msg x al")
  show ?case
  proof (cases o1)
    case (Inl e)
    with Cons.prems(5) r show ?thesis by simp
  next
    case (Inr al1)
    with Cons.prems(5) r have rest: "check_measurements s1 msg xs al1 = (self', Inr al')" by simp
    show ?thesis
    proof (cases "x = m")
      case True
      with Cons.prems(3,4) have "check_measurement self msg x al =
          (self\<lparr>measurement_value := (measurement_value self)(m \<mapsto> v)\<rparr>, Inr al)"
        by (simp add: check_measurement_def)
      with r have "measurement_value s1 m = Some v" by auto
      moreover from True Cons.prems(1) have "m \<notin> set xs" by simp
      ultimately show ?thesis using check_measurements_frame[OF rest] by simp
    next
      case False
      from Cons.prems(1) have "distinct xs" by simp
      moreover from False Cons.prems(2) have "m \<in> set xs" by simp
      moreover have "measurement_value s1 m = None"
        using check_measurement_frame[OF r] False Cons.prems(3) by simp
      ultimately show ?thesis using Cons.prems(4) rest by (rule Cons.IH)
    qed
  qed
qed

section \<open>The example scenario\<close>

lemma example_subscriber_eval:
  "example_subscriber =
     \<lparr>equipment_dict = [(''SW1'', sw1)], measurement_dict = [(''M1'', m1)],
      meas_eq_map = [''M1'' \<mapsto> ''SW1''], eq_phases_map = [''SW1'' \<mapsto> ''A''],
      measurement_value = Map.empty, input_map = Map.empty, next_ident = 0\<rparr>"
  by (simp add: example_subscriber_def main_subscriber_def init_subscriber_def build_maps_def
      associate_def sw1_def m1_def)

lemma input_destination:
  "contains (destination input_headers) ''input''"
  "\<not> contains (destination input_headers) ''output''"
  by (simp_all add: input_headers_def)

lemma output_destination:
  "contains (destination output_headers) ''output''"
  "\<not> contains (destination output_headers) ''input''"
  by (simp_all add: output_headers_def)

lemma record_open_sw1:
  "record_input example_subscriber input_headers open_sw1 =
     (example_subscriber\<lparr>next_ident := 1,
        input_map := [''SW1'' \<mapsto> new_input 0 input_headers open_sw1 ''sw1'' ''A'']\<rparr>, Inr ())"
  by (simp add: example_subscriber_eval record_input_def open_sw1_def sw1_def)

section \<open>The command branch and the output branch\<close>

text \<open>
  C6. A difference item whose object is not a key of the equipment directory, or whose
  attribute is neither \<^verbatim>\<open>ShuntCompensator.sections\<close> nor \<^verbatim>\<open>Switch.open\<close>, leaves the
  subscriber, and so the pending command table, as it was and raises nothing; a batch of
  such items does the same.
\<close>

theorem filtered_item_unchanged:
  "(object item \<notin> set (map fst (equipment_dict self)) \<or>
    attribute item \<notin> {''ShuntCompensator.sections'', ''Switch.open''}
    \<longrightarrow> record_input self hdr item = (self, Inr ()) \<and>
        input_map (fst (record_input self hdr item)) = input_map self) \<and>
   ((\<forall>item \<in> set items. object item \<notin> set (map fst (equipment_dict self)) \<or>
       attribute item \<notin> {''ShuntCompensator.sections'', ''Switch.open''})
    \<longrightarrow> record_inputs self hdr items = (self, Inr ()))"
proof (intro conjI impI)
  assume "object item \<notin> set (map fst (equipment_dict self)) \<or>
    attribute item \<notin> {''ShuntCompensator.sections'', ''Switch.open''}"
  then show "record_input self hdr item = (self, Inr ())"
    by (auto simp: record_input_def)
  then show "input_map (fst (record_input self hdr item)) = input_map self" by simp
next
  assume "\<forall>item \<in> set items. object item \<notin> set (map fst (equipment_dict self)) \<or>
       attribute item \<notin> {''ShuntCompensator.sections'', ''Switch.open''}"
  then show "record_inputs self hdr items = (self, Inr ())"
  proof (induction items)
    case Nil
    show ?case by simp
  next
    case (Cons item items)
    then have "record_input self hdr item = (self, Inr ())"
      by (auto simp: record_input_def)
    with Cons show ?case by simp
  qed
qed

theorem filtered_item_unchanged_witness:
  "object unknown_item \<notin> set (map fst (equipment_dict example_subscriber)) \<and>
   attribute tap_item \<notin> {''ShuntCompensator.sections'', ''Switch.open''} \<and>
   record_input example_subscriber input_headers unknown_item = (example_subscriber, Inr ()) \<and>
   record_inputs example_subscriber input_headers [unknown_item, tap_item] =
     (example_subscriber, Inr ())"
proof -
  have 1: "object unknown_item \<notin> set (map fst (equipment_dict example_subscriber))"
    by (simp add: example_subscriber_eval unknown_item_def)
  have 2: "attribute tap_item \<notin> {''ShuntCompensator.sections'', ''Switch.open''}"
    by (simp add: tap_item_def)
  from 1 2 filtered_item_unchanged
    [of unknown_item example_subscriber input_headers "[unknown_item, tap_item]"]
  show ?thesis by (simp del: record_inputs.simps)
qed

text \<open>
  C7. When the snapshot holds a value for a tracked measurement and the event reports a
  value equal to it (Python \<^verbatim>\<open>==\<close>), the loop body changes nothing: snapshot, pending
  command table and alarm list are as before. An event that repeats the snapshot of
  every tracked measurement leaves the subscriber unchanged and produces no alarm.
\<close>

theorem same_value_is_noop:
  "(measurement_value self m = Some old \<and> message_value msg m = Inr v \<and> py_eq old v
    \<longrightarrow> check_measurement self msg m al = (self, Inr al)) \<and>
   ((\<forall>m \<in> set (map fst (measurement_dict self)).
        \<exists>old v. measurement_value self m = Some old \<and> message_value msg m = Inr v \<and> py_eq old v)
    \<longrightarrow> output_branch self msg = (self, Inr []))"
proof (intro conjI impI)
  assume "measurement_value self m = Some old \<and> message_value msg m = Inr v \<and> py_eq old v"
  then show "check_measurement self msg m al = (self, Inr al)"
    by (simp add: check_measurement_def)
next
  have scan: "(\<forall>m \<in> set ms.
        \<exists>old v. measurement_value self m = Some old \<and> message_value msg m = Inr v \<and> py_eq old v)
     \<Longrightarrow> check_measurements self msg ms al' = (self, Inr al')" for ms al'
  proof (induction ms)
    case Nil
    show ?case by simp
  next
    case (Cons x xs)
    then obtain old v where "measurement_value self x = Some old" "message_value msg x = Inr v"
      "py_eq old v" by auto
    then have "check_measurement self msg x al' = (self, Inr al')"
      by (simp add: check_measurement_def)
    with Cons show ?case by simp
  qed
  assume "\<forall>m \<in> set (map fst (measurement_dict self)).
        \<exists>old v. measurement_value self m = Some old \<and> message_value msg m = Inr v \<and> py_eq old v"
  then show "output_branch self msg = (self, Inr [])"
    unfolding output_branch_def by (rule scan)
qed

lemma observed_subscriber_eval:
  "observed_subscriber = example_subscriber\<lparr>measurement_value := [''M1'' \<mapsto> PInt 0]\<rparr>"
  by (simp add: observed_subscriber_def on_message_def output_destination output_branch_def
      check_measurement_def reading_def example_subscriber_eval)

theorem same_value_is_noop_witness:
  "measurement_value observed_subscriber ''M1'' = Some (PInt 0) \<and>
   message_value (reading 950 0) ''M1'' = Inr (PInt 0) \<and> py_eq (PInt 0) (PInt 0) \<and>
   check_measurement observed_subscriber (reading 950 0) ''M1'' [] = (observed_subscriber, Inr []) \<and>
   output_branch observed_subscriber (reading 950 0) = (observed_subscriber, Inr [])"
proof -
  have 1: "measurement_value observed_subscriber ''M1'' = Some (PInt 0)"
    by (simp add: observed_subscriber_eval)
  have 2: "message_value (reading 950 0) ''M1'' = Inr (PInt 0)"
    by (simp add: reading_def)
  have 3: "map fst (measurement_dict observed_subscriber) = [''M1'']"
    by (simp add: observed_subscriber_eval example_subscriber_eval)
  from 1 2 3 same_value_is_noop
    [of observed_subscriber "''M1''" "PInt 0" "reading 950 0" "PInt 0" "[]"]
  show ?thesis by simp
qed

text \<open>
  C8. When the loop body stores a pending command for an item (its object is in the
  equipment directory, its attribute is tracked, and nothing is raised), the command's
  value is \<^verbatim>\<open>'Open'\<close> if the item's value \<^verbatim>\<open>== 1\<close> and \<^verbatim>\<open>'Close'\<close> otherwise; for an
  integer value \<open>n\<close> that is \<^verbatim>\<open>'Open'\<close> exactly when \<open>n = 1\<close>.
\<close>

theorem normalized_value:
  assumes "object item \<in> set (map fst (equipment_dict self))"
    and "attribute item \<in> {''ShuntCompensator.sections'', ''Switch.open''}"
    and "record_input self hdr item = (self', Inr u)"
  shows "\<exists>c. input_map self' (object item) = Some c \<and>
           cmd_value c = (if py_eq (item_value item) (PInt 1) then ''Open'' else ''Close'') \<and>
           (\<forall>n. item_value item = PInt n \<longrightarrow>
              (cmd_value c = ''Open'' \<longleftrightarrow> n = 1) \<and> (n \<noteq> 1 \<longrightarrow> cmd_value c = ''Close''))"
  using assms(3)
proof (cases rule: record_input_cases)
  case skip
  with assms(1,2) show ?thesis by blast
next
  case (fault e)
  then show ?thesis by simp
next
  case (store eq ph)
  let ?c = "new_input (next_ident self) hdr item (eq_name eq) ph"
  have "input_map self' (object item) = Some ?c" by (simp add: store(5))
  moreover have "cmd_value ?c = (if py_eq (item_value item) (PInt 1) then ''Open'' else ''Close'')"
    by (simp add: new_input_def)
  moreover have "\<forall>n. item_value item = PInt n \<longrightarrow>
      (cmd_value ?c = ''Open'' \<longleftrightarrow> n = 1) \<and> (n \<noteq> 1 \<longrightarrow> cmd_value ?c = ''Close'')"
    by (simp add: new_input_def)
  ultimately show ?thesis by blast
qed

theorem normalized_value_witness:
  "object open_sw1 \<in> set (map fst (equipment_dict example_subscriber)) \<and>
   attribute open_sw1 \<in> {''ShuntCompensator.sections'', ''Switch.open''} \<and>
   (\<exists>c. input_map (fst (record_input example_subscriber input_headers open_sw1)) ''SW1'' = Some c \<and>
      cmd_value c = ''Open'')"
proof -
  have 1: "object open_sw1 \<in> set (map fst (equipment_dict example_subscriber))"
    by (simp add: example_subscriber_eval open_sw1_def)
  have 2: "attribute open_sw1 \<in> {''ShuntCompensator.sections'', ''Switch.open''}"
    by (simp add: open_sw1_def)
  have 3: "object open_sw1 = ''SW1''" "item_value open_sw1 = PInt 1"
    by (simp_all add: open_sw1_def)
  from normalized_value[OF 1 2 record_open_sw1] 1 2 3 show ?thesis
    by (simp add: record_open_sw1)
qed

text \<open>
  C3. When the snapshot has no entry for a measurement that the event reports, the loop
  body stores the reported value and changes nothing else: the pending command table
  and the alarm list are as before, whatever commands are pending. When the handling of
  an output event completes, the snapshot of a tracked measurement that had no entry is
  the value reported by the event.
\<close>

theorem first_observation_is_baseline:
  assumes "measurement_value self m = None" and "message_value msg m = Inr v"
  shows "check_measurement self msg m al =
           (self\<lparr>measurement_value := (measurement_value self)(m \<mapsto> v)\<rparr>, Inr al) \<and>
         input_map (fst (check_measurement self msg m al)) = input_map self \<and>
         (m \<in> set (map fst (measurement_dict self)) \<and> distinct (map fst (measurement_dict self)) \<and>
          contains (destination hdr) ''output'' \<and>
          on_message self hdr msg = (self', Inr batches)
          \<longrightarrow> measurement_value self' m = Some v)"
proof (intro conjI impI)
  show 1: "check_measurement self msg m al =
           (self\<lparr>measurement_value := (measurement_value self)(m \<mapsto> v)\<rparr>, Inr al)"
    using assms by (simp add: check_measurement_def)
  show "input_map (fst (check_measurement self msg m al)) = input_map self"
    unfolding 1 by simp
next
  assume h: "m \<in> set (map fst (measurement_dict self)) \<and> distinct (map fst (measurement_dict self)) \<and>
          contains (destination hdr) ''output'' \<and>
          on_message self hdr msg = (self', Inr batches)"
  then have om: "on_message self hdr msg = (self', Inr batches)" by simp
  from om show "measurement_value self' m = Some v"
  proof (cases rule: on_message_split)
    case (input_fault e)
    then show ?thesis by simp
  next
    case (proceed self1 o2)
    have f: "same_index self self1 \<and> measurement_value self1 = measurement_value self"
    proof (cases "contains (destination hdr) ''input''")
      case True
      with proceed(1) have "input_branch self hdr msg = (self1, Inr ())" by simp
      then show ?thesis by (rule input_branch_frame)
    next
      case False
      with proceed(1) show ?thesis by (simp add: same_index_refl)
    qed
    then have keys: "measurement_dict self1 = measurement_dict self"
      and none: "measurement_value self1 m = None"
      using assms(1) by (simp_all add: same_index_def)
    from proceed(3) obtain al2 where o2: "o2 = Inr al2" by (cases o2) simp_all
    from h proceed(2) o2
    have "check_measurements self1 msg (map fst (measurement_dict self)) [] = (self', Inr al2)"
      by (simp add: output_branch_def keys)
    with h none assms(2) show ?thesis
      by (intro check_measurements_first[where ms = "map fst (measurement_dict self)"]) simp_all
  qed
qed

theorem first_observation_is_baseline_witness:
  "measurement_value example_subscriber ''M1'' = None \<and>
   message_value (reading 900 0) ''M1'' = Inr (PInt 0) \<and>
   check_measurement example_subscriber (reading 900 0) ''M1'' [] =
     (example_subscriber\<lparr>measurement_value := [''M1'' \<mapsto> PInt 0]\<rparr>, Inr []) \<and>
   on_message example_subscriber output_headers (reading 900 0) = (observed_subscriber, Inr []) \<and>
   measurement_value observed_subscriber ''M1'' = Some (PInt 0)"
proof -
  have 1: "measurement_value example_subscriber ''M1'' = None"
    by (simp add: example_subscriber_eval)
  have 2: "message_value (reading 900 0) ''M1'' = Inr (PInt 0)"
    by (simp add: reading_def)
  have 3: "map fst (measurement_dict example_subscriber) = [''M1'']"
    by (simp add: example_subscriber_eval)
  have 4: "on_message example_subscriber output_headers (reading 900 0) = (observed_subscriber, Inr [])"
    by (simp add: observed_subscriber_eval on_message_def output_destination output_branch_def
      check_measurement_def reading_def example_subscriber_eval)
  have 5: "measurement_value example_subscriber = Map.empty"
    by (simp add: example_subscriber_eval)
  from first_observation_is_baseline[OF 1 2, of "[]" output_headers observed_subscriber "[]"]
    1 2 3 4 5 output_destination(1)
  show ?thesis by simp
qed





text \<open>
  C10. The loop body reads the event's value of the measurement in both branches, so a
  tracked measurement that the event does not hold raises at once and leaves the
  subscriber as it was. Hence an event on an output destination is handled without an
  exception only if it holds a value for every tracked measurement; when the event misses
  a tracked measurement, the call raises, and the snapshot entries of the measurements
  after it in the scan order are not updated.
\<close>

theorem missing_measurement_raises:
  assumes "contains (destination hdr) ''output''"
  shows "(message_value msg m = Inl e \<longrightarrow> check_measurement self msg m al = (self, Inl e)) \<and>
         (on_message self hdr msg = (self', Inr batches) \<longrightarrow>
            (\<forall>m \<in> set (map fst (measurement_dict self)). \<exists>v. message_value msg m = Inr v)) \<and>
         (map fst (measurement_dict self) = pre @ m # post \<and> message_value msg m = Inl e \<longrightarrow>
            (\<exists>e'. snd (on_message self hdr msg) = Inl e') \<and>
            (\<forall>m'. m' \<notin> set pre \<longrightarrow>
               measurement_value (fst (on_message self hdr msg)) m' = measurement_value self m'))"
proof -
  have a: "message_value msg m = Inl e \<longrightarrow> check_measurement self msg m al = (self, Inl e)"
    by (simp add: check_measurement_missing)
  have b: "on_message self hdr msg = (self', Inr batches) \<longrightarrow>
            (\<forall>m \<in> set (map fst (measurement_dict self)). \<exists>v. message_value msg m = Inr v)"
  proof
    assume om: "on_message self hdr msg = (self', Inr batches)"
    from om show "\<forall>m \<in> set (map fst (measurement_dict self)). \<exists>v. message_value msg m = Inr v"
    proof (cases rule: on_message_split)
      case (input_fault e)
      then show ?thesis by simp
    next
      case (proceed self1 o2)
      have "same_index self self1"
      proof (cases "contains (destination hdr) ''input''")
        case True
        with proceed(1) have "input_branch self hdr msg = (self1, Inr ())" by simp
        from input_branch_frame[OF this] show ?thesis by simp
      next
        case False
        with proceed(1) show ?thesis by (simp add: same_index_refl)
      qed
      then have keys: "measurement_dict self1 = measurement_dict self"
        by (simp add: same_index_def)
      from proceed(3) obtain al2 where o2: "o2 = Inr al2" by (cases o2) simp_all
      from assms proceed(2) o2
      have "check_measurements self1 msg (map fst (measurement_dict self)) [] = (self', Inr al2)"
        by (simp add: output_branch_def keys)
      then show ?thesis by (rule check_measurements_completes)
    qed
  qed
  have c: "map fst (measurement_dict self) = pre @ m # post \<and> message_value msg m = Inl e \<longrightarrow>
            (\<exists>e'. snd (on_message self hdr msg) = Inl e') \<and>
            (\<forall>m'. m' \<notin> set pre \<longrightarrow>
               measurement_value (fst (on_message self hdr msg)) m' = measurement_value self m')"
  proof
    assume h: "map fst (measurement_dict self) = pre @ m # post \<and> message_value msg m = Inl e"
    obtain s' out where om: "on_message self hdr msg = (s', out)"
      by (cases "on_message self hdr msg")
    from om have "(\<exists>e'. out = Inl e') \<and>
        (\<forall>m'. m' \<notin> set pre \<longrightarrow> measurement_value s' m' = measurement_value self m')"
    proof (cases rule: on_message_split)
      case (input_fault e0)
      from input_branch_frame[OF input_fault(2)] input_fault(3) show ?thesis by simp
    next
      case (proceed self1 o2)
      have f: "same_index self self1 \<and> measurement_value self1 = measurement_value self"
      proof (cases "contains (destination hdr) ''input''")
        case True
        with proceed(1) have "input_branch self hdr msg = (self1, Inr ())" by simp
        then show ?thesis by (rule input_branch_frame)
      next
        case False
        with proceed(1) show ?thesis by (simp add: same_index_refl)
      qed
      then have keys: "measurement_dict self1 = measurement_dict self"
        by (simp add: same_index_def)
      from assms proceed(2) h
      have scan: "check_measurements self1 msg (pre @ m # post) [] = (s', o2)"
        by (simp add: output_branch_def keys)
      from h have "message_value msg m = Inl e" by simp
      from check_measurements_stop[OF this, of self1 pre post "[]"] scan
      have st: "s' = fst (check_measurements self1 msg pre [])" and "\<exists>e'. o2 = Inl e'"
        by simp_all
      then obtain e' where "o2 = Inl e'" by blast
      with proceed(3) have 1: "\<exists>e'. out = Inl e'" by simp
      obtain s2 o3 where pre: "check_measurements self1 msg pre [] = (s2, o3)"
        by (cases "check_measurements self1 msg pre []")
      from check_measurements_frame[OF pre] st pre f
      have "\<forall>m'. m' \<notin> set pre \<longrightarrow> measurement_value s' m' = measurement_value self m'"
        by simp
      with 1 show ?thesis by simp
    qed
    with om show "(\<exists>e'. snd (on_message self hdr msg) = Inl e') \<and>
              (\<forall>m'. m' \<notin> set pre \<longrightarrow>
                 measurement_value (fst (on_message self hdr msg)) m' = measurement_value self m')"
      by simp
  qed
  show ?thesis by (rule conjI[OF a conjI[OF b c]])
qed

lemma two_phase_subscriber_eval:
  "two_phase_subscriber =
     \<lparr>equipment_dict = [(''SW1'', sw1)], measurement_dict = [(''M1'', m1), (''M2'', m2)],
      meas_eq_map = [''M1'' \<mapsto> ''SW1'', ''M2'' \<mapsto> ''SW1''], eq_phases_map = [''SW1'' \<mapsto> ''AB''],
      measurement_value = Map.empty, input_map = Map.empty, next_ident = 0\<rparr>"
  by (simp add: two_phase_subscriber_def main_subscriber_def init_subscriber_def build_maps_def
      associate_def sw1_def m1_def m2_def)

theorem missing_measurement_raises_witness:
  "contains (destination output_headers) ''output'' \<and>
   map fst (measurement_dict two_phase_subscriber) = [] @ ''M1'' # [''M2''] \<and>
   message_value (OutputMessage (PInt 900) [''M2'' \<mapsto> PInt 0]) ''M1'' = Inl (KeyError ''M1'') \<and>
   (\<exists>e'. snd (on_message two_phase_subscriber output_headers
        (OutputMessage (PInt 900) [''M2'' \<mapsto> PInt 0])) = Inl e') \<and>
   measurement_value (fst (on_message two_phase_subscriber output_headers
        (OutputMessage (PInt 900) [''M2'' \<mapsto> PInt 0]))) ''M2'' = None"
proof -
  have 1: "map fst (measurement_dict two_phase_subscriber) = [] @ ''M1'' # [''M2'']"
    by (simp add: two_phase_subscriber_eval)
  have 2: "message_value (OutputMessage (PInt 900) [''M2'' \<mapsto> PInt 0]) ''M1'' = Inl (KeyError ''M1'')"
    by simp
  have 3: "measurement_value two_phase_subscriber ''M2'' = None"
    by (simp add: two_phase_subscriber_eval)
  from missing_measurement_raises[OF output_destination(1),
      of "OutputMessage (PInt 900) [''M2'' \<mapsto> PInt 0]" "''M1''" "KeyError ''M1''"
         two_phase_subscriber "[]" two_phase_subscriber "[]" "[]" "[''M2'']"]
    1 2 3 output_destination(1)
  show ?thesis by simp
qed

section \<open>Alarms over the event stream\<close>

lemma fresh_idents_empty: "input_map self = Map.empty \<Longrightarrow> fresh_idents self"
  by (simp add: fresh_idents_def)

lemma fresh_idents_main: "fresh_idents (main_subscriber capacitors switches cap_meas sw_meas)"
  by (rule fresh_idents_empty) (simp add: main_subscriber_def init_subscriber_def Let_def)

text \<open>
  C1. Each pending command is one object (\<open>ident\<close>). Over any list of events, handled
  from a subscriber whose pending commands are distinct objects allocated earlier (as
  they are after \<^verbatim>\<open>__init__\<close>, where the table is empty, and after every call of
  \<^verbatim>\<open>on_message\<close>), no two alarms sent are the same command object. A call that sends
  alarms has removed their commands from the table, and the loop body appends an alarm
  only by taking the command of the measurement's equipment out of the table.
\<close>

theorem at_most_one_alarm_per_command:
  assumes "fresh_idents self"
  shows "distinct (map ident (published self events)) \<and>
         (on_message self hdr msg = (self', out) \<longrightarrow>
            fresh_idents self' \<and>
            (\<forall>a \<in> set (concat (sent out)). ident a \<notin> pending_idents self')) \<and>
         (check_measurement self msg m al = (self1, Inr al1) \<and> al1 \<noteq> al \<longrightarrow>
            (\<exists>mrid c ts. meas_eq_map self m = Some mrid \<and> input_map self mrid = Some c \<and>
               input_map self1 mrid = None \<and> al1 = al @ [c\<lparr>timestamp := Some ts\<rparr>]))"
proof -
  have a: "distinct (map ident (published self events))"
    using run_published[OF assms] by simp
  have b: "on_message self hdr msg = (self', out) \<longrightarrow>
            fresh_idents self' \<and>
            (\<forall>a \<in> set (concat (sent out)). ident a \<notin> pending_idents self')"
  proof
    assume om: "on_message self hdr msg = (self', out)"
    from assms have "consistent self []" by (rule fresh_idents_consistent)
    from on_message_consistent[OF this om] have c: "consistent self' (concat (sent out))"
      by simp
    from c have "fresh_idents self'" by (rule consistent_fresh)
    moreover from c have "\<forall>a \<in> set (concat (sent out)). ident a \<notin> pending_idents self'"
      unfolding consistent_def by (elim conjE)
    ultimately show "fresh_idents self' \<and>
        (\<forall>a \<in> set (concat (sent out)). ident a \<notin> pending_idents self')"
      by (rule conjI)
  qed
  have c: "check_measurement self msg m al = (self1, Inr al1) \<and> al1 \<noteq> al \<longrightarrow>
            (\<exists>mrid c ts. meas_eq_map self m = Some mrid \<and> input_map self mrid = Some c \<and>
               input_map self1 mrid = None \<and> al1 = al @ [c\<lparr>timestamp := Some ts\<rparr>])"
  proof
    assume h: "check_measurement self msg m al = (self1, Inr al1) \<and> al1 \<noteq> al"
    then have cm: "check_measurement self msg m al = (self1, Inr al1)" and ne: "al1 \<noteq> al"
      by simp_all
    from cm show "\<exists>mrid c ts. meas_eq_map self m = Some mrid \<and> input_map self mrid = Some c \<and>
               input_map self1 mrid = None \<and> al1 = al @ [c\<lparr>timestamp := Some ts\<rparr>]"
    proof (cases rule: check_measurement_cases)
      case (fault e)
      then show ?thesis by simp
    next
      case (first v)
      with ne show ?thesis by simp
    next
      case (same old v)
      with ne show ?thesis by simp
    next
      case (unmapped old v)
      then show ?thesis by simp
    next
      case (quiet old v mrid)
      with ne show ?thesis by simp
    next
      case (alarm old v mrid c)
      from alarm(7) obtain ts where "al1 = al @ [c\<lparr>timestamp := Some ts\<rparr>]" by auto
      moreover have "input_map self1 mrid = None" by (simp add: alarm(6))
      ultimately show ?thesis using alarm(4,5) by blast
    qed
  qed
  show ?thesis by (rule conjI[OF a conjI[OF b c]])
qed

lemma scenario_published:
  "published example_subscriber scenario =
     [(new_input 0 input_headers open_sw1 ''sw1'' ''A'')\<lparr>timestamp := Some (PInt 1000)\<rparr>]"
  by (simp add: published_def scenario_def on_message_def output_destination input_destination
      output_branch_def input_branch_def check_measurement_def record_input_def
      example_subscriber_eval reading_def open_sw1_def sw1_def)

theorem at_most_one_alarm_per_command_witness:
  "fresh_idents example_subscriber \<and>
   distinct (map ident (published example_subscriber scenario)) \<and>
   length (published example_subscriber scenario) = 1"
proof -
  have f: "fresh_idents example_subscriber"
    unfolding example_subscriber_def by (rule fresh_idents_main)
  from at_most_one_alarm_per_command[OF f, of scenario] f show ?thesis
    by (simp add: scenario_published)
qed

text \<open>
  Overwriting where line 124 finds the phases. Two items with tracked attributes for the
  same equipment, which is in the equipment directory and has an entry in
  \<^verbatim>\<open>eq_phases_map\<close>, are handled one after the other, in one batch or in two command
  events. Then the table holds the command of the second item for that equipment and its
  other entries are as before; the command object of the first item is in the table no
  more, and no alarm sent for any later events is that object.
\<close>

lemma second_command_overwrites:
  assumes "fresh_idents self"
    and "map_of (equipment_dict self) mrid = Some eq"
    and "eq_phases_map self mrid = Some ph"
    and "object item1 = mrid" and "object item2 = mrid"
    and "attribute item1 \<in> {''ShuntCompensator.sections'', ''Switch.open''}"
    and "attribute item2 \<in> {''ShuntCompensator.sections'', ''Switch.open''}"
    and "record_input self hdr1 item1 = (self1, out1)"
    and "record_input self1 hdr2 item2 = (self2, out2)"
  shows "input_map self1 mrid = Some (new_input (next_ident self) hdr1 item1 (eq_name eq) ph) \<and>
         input_map self2 mrid = Some (new_input (Suc (next_ident self)) hdr2 item2 (eq_name eq) ph) \<and>
         (\<forall>k. k \<noteq> mrid \<longrightarrow> input_map self2 k = input_map self k) \<and>
         next_ident self \<notin> pending_idents self2 \<and>
         (\<forall>a \<in> set (published self2 events). ident a \<noteq> next_ident self) \<and>
         (hdr2 = hdr1 \<longrightarrow> record_inputs self hdr1 [item1, item2] = (self2, Inr ())) \<and>
         (contains (destination hdr1) ''input'' \<and> \<not> contains (destination hdr1) ''output'' \<and>
          hdr2 = hdr1 \<longrightarrow>
            on_message self hdr1 (InputMessage [item1, item2]) = (self2, Inr [])) \<and>
         (contains (destination hdr1) ''input'' \<and> \<not> contains (destination hdr1) ''output'' \<and>
          contains (destination hdr2) ''input'' \<and> \<not> contains (destination hdr2) ''output'' \<longrightarrow>
            on_message self hdr1 (InputMessage [item1]) = (self1, Inr []) \<and>
            on_message self1 hdr2 (InputMessage [item2]) = (self2, Inr []))"
proof -
  let ?n = "next_ident self"
  let ?c1 = "new_input ?n hdr1 item1 (eq_name eq) ph"
  let ?c2 = "new_input (Suc ?n) hdr2 item2 (eq_name eq) ph"
  from assms(2) have "(mrid, eq) \<in> set (equipment_dict self)" by (rule map_of_SomeD)
  then have "fst (mrid, eq) \<in> fst ` set (equipment_dict self)" by (rule imageI)
  then have key: "mrid \<in> set (map fst (equipment_dict self))" by simp
  have r1: "record_input self hdr1 item1 =
      (self\<lparr>next_ident := Suc ?n, input_map := (input_map self)(mrid \<mapsto> ?c1)\<rparr>, Inr ())"
    using key assms(2,3,4,6) by (simp add: record_input_def Let_def)
  with assms(8) have s1: "self1 = self\<lparr>next_ident := Suc ?n, input_map := (input_map self)(mrid \<mapsto> ?c1)\<rparr>"
    and o1: "out1 = Inr ()" by simp_all
  have r2: "record_input self1 hdr2 item2 =
      (self1\<lparr>next_ident := Suc (Suc ?n), input_map := (input_map self1)(mrid \<mapsto> ?c2)\<rparr>, Inr ())"
    using key assms(2,3,5,7) by (simp add: record_input_def Let_def s1)
  with assms(9) have s2: "self2 = self1\<lparr>next_ident := Suc (Suc ?n),
      input_map := (input_map self1)(mrid \<mapsto> ?c2)\<rparr>"
    and o2: "out2 = Inr ()" by simp_all
  have t1: "input_map self1 mrid = Some ?c1" by (simp add: s1)
  have t2: "input_map self2 mrid = Some ?c2" by (simp add: s2)
  have t3: "\<forall>k. k \<noteq> mrid \<longrightarrow> input_map self2 k = input_map self k" by (simp add: s2 s1)
  have n2: "next_ident self2 = Suc (Suc ?n)" by (simp add: s2)
  from assms(1) have "consistent self []" by (rule fresh_idents_consistent)
  from record_input_consistent[OF this assms(8)] have "consistent self1 []" by simp
  from record_input_consistent[OF this assms(9)] have "consistent self2 []" by simp
  then have f2: "fresh_idents self2" by (rule consistent_fresh)
  have p: "?n \<notin> pending_idents self2"
  proof
    assume "?n \<in> pending_idents self2"
    then obtain k c where kc: "input_map self2 k = Some c" "ident c = ?n"
      unfolding pending_idents_def by auto
    show False
    proof (cases "k = mrid")
      case True
      with kc(1) t2 have "c = ?c2" by simp
      then have "ident c = Suc ?n" by (simp add: ident_new_input)
      with kc(2) show False by simp
    next
      case False
      with kc(1) t3 have "input_map self k = Some c" by simp
      with assms(1) have "ident c < ?n" by (rule fresh_idents_less)
      with kc(2) show False by simp
    qed
  qed
  have q: "\<forall>a \<in> set (published self2 events). ident a \<noteq> ?n"
  proof
    fix a
    assume "a \<in> set (published self2 events)"
    with run_published[OF f2, of events]
    have "ident a \<in> pending_idents self2 \<or> next_ident self2 \<le> ident a" by simp
    with p n2 show "ident a \<noteq> ?n" by auto
  qed
  have b: "hdr2 = hdr1 \<longrightarrow> record_inputs self hdr1 [item1, item2] = (self2, Inr ())"
  proof
    assume "hdr2 = hdr1"
    with assms(8,9) o1 o2 have "record_input self hdr1 item1 = (self1, Inr ())"
      "record_input self1 hdr1 item2 = (self2, Inr ())" by simp_all
    then show "record_inputs self hdr1 [item1, item2] = (self2, Inr ())" by simp
  qed
  have h1: "contains (destination hdr1) ''input'' \<and> \<not> contains (destination hdr1) ''output'' \<and>
          hdr2 = hdr1 \<longrightarrow>
            on_message self hdr1 (InputMessage [item1, item2]) = (self2, Inr [])"
  proof
    assume h: "contains (destination hdr1) ''input'' \<and> \<not> contains (destination hdr1) ''output'' \<and>
          hdr2 = hdr1"
    with b have "record_inputs self hdr1 [item1, item2] = (self2, Inr ())" by simp
    then have "input_branch self hdr1 (InputMessage [item1, item2]) = (self2, Inr ())"
      by (simp add: input_branch_def)
    with h show "on_message self hdr1 (InputMessage [item1, item2]) = (self2, Inr [])"
      by (simp add: on_message_def)
  qed
  have h2: "contains (destination hdr1) ''input'' \<and> \<not> contains (destination hdr1) ''output'' \<and>
          contains (destination hdr2) ''input'' \<and> \<not> contains (destination hdr2) ''output'' \<longrightarrow>
            on_message self hdr1 (InputMessage [item1]) = (self1, Inr []) \<and>
            on_message self1 hdr2 (InputMessage [item2]) = (self2, Inr [])"
  proof
    assume h: "contains (destination hdr1) ''input'' \<and> \<not> contains (destination hdr1) ''output'' \<and>
          contains (destination hdr2) ''input'' \<and> \<not> contains (destination hdr2) ''output''"
    from assms(8) o1 have "input_branch self hdr1 (InputMessage [item1]) = (self1, Inr ())"
      by (simp add: input_branch_def)
    with h have 1: "on_message self hdr1 (InputMessage [item1]) = (self1, Inr [])"
      by (simp add: on_message_def)
    from assms(9) o2 have "input_branch self1 hdr2 (InputMessage [item2]) = (self2, Inr ())"
      by (simp add: input_branch_def)
    with h have 2: "on_message self1 hdr2 (InputMessage [item2]) = (self2, Inr [])"
      by (simp add: on_message_def)
    from 1 2 show "on_message self hdr1 (InputMessage [item1]) = (self1, Inr []) \<and>
            on_message self1 hdr2 (InputMessage [item2]) = (self2, Inr [])"
      by (rule conjI)
  qed
  show ?thesis
    by (rule conjI[OF t1 conjI[OF t2 conjI[OF t3 conjI[OF p conjI[OF q conjI[OF b conjI[OF h1 h2]]]]]]])
qed

lemma overwritten_published:
  "published overwritten_subscriber [(output_headers, reading 1000 1)] =
     [(new_input 1 input_headers close_sw1 ''sw1'' ''A'')\<lparr>timestamp := Some (PInt 1000)\<rparr>]"
  by (simp add: published_def overwritten_subscriber_def on_message_def output_destination
      output_branch_def check_measurement_def record_input_def observed_subscriber_eval
      example_subscriber_eval reading_def open_sw1_def close_sw1_def sw1_def)

lemma second_command_overwrites_example:
  "fresh_idents observed_subscriber \<and>
   map_of (equipment_dict observed_subscriber) ''SW1'' = Some sw1 \<and>
   eq_phases_map observed_subscriber ''SW1'' = Some ''A'' \<and>
   input_map overwritten_subscriber ''SW1'' = Some (new_input 1 input_headers close_sw1 ''sw1'' ''A'') \<and>
   0 \<notin> pending_idents overwritten_subscriber \<and>
   map ident (published overwritten_subscriber [(output_headers, reading 1000 1)]) = [1]"
proof -
  have f: "fresh_idents observed_subscriber"
    by (rule fresh_idents_empty) (simp add: observed_subscriber_eval example_subscriber_eval)
  have e: "map_of (equipment_dict observed_subscriber) ''SW1'' = Some sw1"
    by (simp add: observed_subscriber_eval example_subscriber_eval)
  have ph: "eq_phases_map observed_subscriber ''SW1'' = Some ''A''"
    by (simp add: observed_subscriber_eval example_subscriber_eval)
  have i: "object open_sw1 = ''SW1''" "object close_sw1 = ''SW1''"
    "attribute open_sw1 \<in> {''ShuntCompensator.sections'', ''Switch.open''}"
    "attribute close_sw1 \<in> {''ShuntCompensator.sections'', ''Switch.open''}"
    by (simp_all add: open_sw1_def close_sw1_def)
  have n: "next_ident observed_subscriber = 0" "eq_name sw1 = ''sw1''"
    by (simp_all add: observed_subscriber_eval example_subscriber_eval sw1_def)
  obtain s1 o1 where r1: "record_input observed_subscriber input_headers open_sw1 = (s1, o1)"
    by (cases "record_input observed_subscriber input_headers open_sw1")
  obtain s2 o2 where r2: "record_input s1 input_headers close_sw1 = (s2, o2)"
    by (cases "record_input s1 input_headers close_sw1")
  have s2: "overwritten_subscriber = s2"
    by (simp add: overwritten_subscriber_def r1 r2)
  from second_command_overwrites[OF f e ph i r1 r2,
      of "[(output_headers, reading 1000 1)]"] f e ph n
  show ?thesis by (simp add: s2[symmetric] overwritten_published ident_new_input)
qed

text \<open>
  C4. The switch \<^verbatim>\<open>SW1\<close> is in the equipment directory but has no position measurement,
  so \<^verbatim>\<open>eq_phases_map\<close> has no entry for it. Two commands on \<^verbatim>\<open>Switch.open\<close> of \<^verbatim>\<open>SW1\<close>, in
  one command event or in two, do not leave the second command in the table: the
  handling of the first one raises \<^verbatim>\<open>KeyError\<close> at line 124, before line 125 stores
  anything, and so does the handling of the second; the table stays empty.
\<close>

theorem command_without_phases_raises:
  "map fst (equipment_dict unmeasured_subscriber) = [''SW1''] \<and>
   eq_phases_map unmeasured_subscriber ''SW1'' = None \<and>
   on_message unmeasured_subscriber input_headers (InputMessage [open_sw1, close_sw1]) =
     (unmeasured_subscriber\<lparr>next_ident := 1\<rparr>, Inl (KeyError ''SW1'')) \<and>
   on_message unmeasured_subscriber input_headers (InputMessage [open_sw1]) =
     (unmeasured_subscriber\<lparr>next_ident := 1\<rparr>, Inl (KeyError ''SW1'')) \<and>
   on_message (unmeasured_subscriber\<lparr>next_ident := 1\<rparr>) input_headers (InputMessage [close_sw1]) =
     (unmeasured_subscriber\<lparr>next_ident := 2\<rparr>, Inl (KeyError ''SW1'')) \<and>
   input_map (unmeasured_subscriber\<lparr>next_ident := 2\<rparr>) ''SW1'' = None"
  by (simp add: unmeasured_subscriber_def main_subscriber_def init_subscriber_def build_maps_def
      sw1_def on_message_def input_destination input_branch_def record_input_def
      open_sw1_def close_sw1_def)

section \<open>The metadata index\<close>

lemma distinct_add_equipment:
  "distinct (map fst d) \<Longrightarrow> distinct (map fst (add_equipment d xs))"
  by (induction xs arbitrary: d) (simp_all add: distinct_update)

lemma for_equipment_distinct:
  "distinct eqs \<Longrightarrow>
   for_equipment mid m eqs (me, ep) =
     (if eqid m \<in> set eqs
      then (me(mid \<mapsto> eqid m),
            ep(eqid m \<mapsto> (case ep (eqid m) of Some p \<Rightarrow> p @ phases m | None \<Rightarrow> phases m)))
      else (me, ep))"
proof (induction eqs arbitrary: me ep)
  case Nil
  show ?case by simp
next
  case (Cons x xs)
  then have d: "distinct xs" and nx: "x \<notin> set xs" by simp_all
  show ?case
  proof (cases "x = eqid m")
    case True
    with nx have "eqid m \<notin> set xs" by simp
    with True Cons.IH[OF d] show ?thesis
      by (simp add: associate_def split: option.splits)
  next
    case False
    with Cons.IH[OF d] show ?thesis by (simp add: associate_def)
  qed
qed

lemma for_measurement_phases:
  "distinct eqs \<Longrightarrow>
   snd (for_measurement ms eqs (me, ep)) e =
     (if e \<in> set eqs \<and> filter (\<lambda>m. eqid m = e) (map snd ms) \<noteq> []
      then Some ((case ep e of Some p \<Rightarrow> p | None \<Rightarrow> []) @
                 concat (map phases (filter (\<lambda>m. eqid m = e) (map snd ms))))
      else ep e)"
proof (induction ms arbitrary: me ep)
  case Nil
  show ?case by simp
next
  case (Cons x xs)
  obtain mid m where x: "x = (mid, m)" by (cases x)
  note fe = for_equipment_distinct[OF Cons.prems, of mid m me ep]
  show ?case
  proof (cases "eqid m \<in> set eqs")
    case False
    with fe have "for_equipment mid m eqs (me, ep) = (me, ep)" by simp
    with Cons.IH[OF Cons.prems, of me ep] False show ?thesis
      unfolding x by auto
  next
    case True
    define ep' where "ep' = ep(eqid m \<mapsto> (case ep (eqid m) of Some p \<Rightarrow> p @ phases m | None \<Rightarrow> phases m))"
    define me' where "me' = me(mid \<mapsto> eqid m)"
    from True fe have s: "for_equipment mid m eqs (me, ep) = (me', ep')"
      by (simp add: ep'_def me'_def)
    note ih = Cons.IH[OF Cons.prems, of me' ep']
    show ?thesis
    proof (cases "eqid m = e")
      case False
      then have "ep' e = ep e" by (simp add: ep'_def)
      with ih s False show ?thesis unfolding x by simp
    next
      case e: True
      have "ep' e = Some ((case ep e of Some p \<Rightarrow> p | None \<Rightarrow> []) @ phases m)"
        using e by (simp add: ep'_def split: option.splits)
      with ih s e True show ?thesis unfolding x by simp
    qed
  qed
qed

lemma build_maps_phases:
  "distinct (map fst ed) \<Longrightarrow>
   snd (build_maps ed md) e =
     (if e \<in> set (map fst ed) \<and> filter (\<lambda>m. eqid m = e) (map snd md) \<noteq> []
      then Some (concat (map phases (filter (\<lambda>m. eqid m = e) (map snd md))))
      else None)"
  unfolding build_maps_def by (simp add: for_measurement_phases)

text \<open>
  C5, as the code has it. The phases recorded for an equipment are the phases of its
  measurements in \<^verbatim>\<open>measurement_dict\<close>, concatenated in the order of the dictionary
  (line 262 is \<^verbatim>\<open>+\<close> on strings); an equipment has an entry exactly when it is in the
  equipment directory and has such a measurement. The phases occurring in the value are
  therefore the union of the phases of these measurements.
\<close>

theorem phases_are_concatenated:
  "eq_phases_map (main_subscriber capacitors switches cap_meas sw_meas) e =
     (if e \<in> set (map fst (equipment_dict (main_subscriber capacitors switches cap_meas sw_meas))) \<and>
         filter (\<lambda>m. eqid m = e)
           (map snd (measurement_dict (main_subscriber capacitors switches cap_meas sw_meas))) \<noteq> []
      then Some (concat (map phases (filter (\<lambda>m. eqid m = e)
           (map snd (measurement_dict (main_subscriber capacitors switches cap_meas sw_meas))))))
      else None) \<and>
   (eq_phases_map (main_subscriber capacitors switches cap_meas sw_meas) e = Some p \<longrightarrow>
      set p = (\<Union>m \<in> {m \<in> set (map snd
          (measurement_dict (main_subscriber capacitors switches cap_meas sw_meas))). eqid m = e}.
        set (phases m)))"
proof -
  define ed where "ed = add_equipment (add_equipment [] capacitors) switches"
  define md where "md = add_measurements (add_measurements [] cap_meas) sw_meas"
  have d: "distinct (map fst ed)"
    unfolding ed_def by (intro distinct_add_equipment) simp
  have S: "eq_phases_map (main_subscriber capacitors switches cap_meas sw_meas) = snd (build_maps ed md)"
    "equipment_dict (main_subscriber capacitors switches cap_meas sw_meas) = ed"
    "measurement_dict (main_subscriber capacitors switches cap_meas sw_meas) = md"
    by (simp_all add: main_subscriber_def init_subscriber_def Let_def ed_def md_def)
  have 1: "snd (build_maps ed md) e =
     (if e \<in> set (map fst ed) \<and> filter (\<lambda>m. eqid m = e) (map snd md) \<noteq> []
      then Some (concat (map phases (filter (\<lambda>m. eqid m = e) (map snd md))))
      else None)"
    using d by (rule build_maps_phases)
  have 2: "snd (build_maps ed md) e = Some p \<longrightarrow>
      set p = (\<Union>m \<in> {m \<in> set (map snd md). eqid m = e}. set (phases m))"
  proof
    assume "snd (build_maps ed md) e = Some p"
    with 1 have "p = concat (map phases (filter (\<lambda>m. eqid m = e) (map snd md)))"
      by (simp split: if_splits)
    then show "set p = (\<Union>m \<in> {m \<in> set (map snd md). eqid m = e}. set (phases m))"
      by auto
  qed
  from 1 2 show ?thesis unfolding S by (rule conjI)
qed

theorem phases_are_concatenated_witness:
  "eq_phases_map two_phase_subscriber ''SW1'' = Some ''AB'' \<and>
   concat (map phases (filter (\<lambda>m. eqid m = ''SW1'')
     (map snd (measurement_dict two_phase_subscriber)))) = ''AB'' \<and>
   set ''AB'' = (\<Union>m \<in> {m \<in> set (map snd (measurement_dict two_phase_subscriber)). eqid m = ''SW1''}.
        set (phases m))"
proof -
  have 1: "eq_phases_map two_phase_subscriber ''SW1'' = Some ''AB''"
    by (simp add: two_phase_subscriber_eval)
  have 2: "concat (map phases (filter (\<lambda>m. eqid m = ''SW1'')
     (map snd (measurement_dict two_phase_subscriber)))) = ''AB''"
    by (simp add: two_phase_subscriber_eval m1_def m2_def)
  from phases_are_concatenated[of "[]" "[sw1]" "[]" "[m1, m2]" "''SW1''" "''AB''"] 1 2
  show ?thesis unfolding two_phase_subscriber_def[symmetric] by simp
qed

text \<open>
  C5, as the claim states it, fails: two position measurements of one switch that both
  report phase \<^verbatim>\<open>A\<close> give the phase value \<^verbatim>\<open>AA\<close>, in which \<^verbatim>\<open>A\<close> occurs twice.
\<close>

theorem repeated_phase_counterexample:
  "eq_phases_map repeated_phase_subscriber ''SW1'' = Some ''AA'' \<and> \<not> distinct ''AA''"
  by (simp add: repeated_phase_subscriber_def main_subscriber_def init_subscriber_def
      build_maps_def associate_def sw1_def m1_def m1b_def)

text \<open>
  C2. The measurement \<^verbatim>\<open>M1\<close> is tracked but its equipment is not in the equipment
  directory, so \<^verbatim>\<open>meas_eq_map\<close> has no entry for it. The first output event records the
  baseline; the second one reports a changed value: line 136 updates the snapshot and
  line 137 raises \<^verbatim>\<open>KeyError\<close>.
\<close>

theorem unassociated_measurement_raises:
  "meas_eq_map orphan_subscriber ''M1'' = None \<and>
   map fst (measurement_dict orphan_subscriber) = [''M1''] \<and>
   on_message orphan_subscriber output_headers (reading 900 0) =
     (orphan_subscriber\<lparr>measurement_value := [''M1'' \<mapsto> PInt 0]\<rparr>, Inr []) \<and>
   on_message (orphan_subscriber\<lparr>measurement_value := [''M1'' \<mapsto> PInt 0]\<rparr>)
       output_headers (reading 1000 1) =
     (orphan_subscriber\<lparr>measurement_value := [''M1'' \<mapsto> PInt 1]\<rparr>, Inl (KeyError ''M1''))"
  by (simp add: orphan_subscriber_def main_subscriber_def init_subscriber_def build_maps_def
      m1_def on_message_def output_destination output_branch_def check_measurement_def
      reading_def)

end
